theory Spec2Isabelle
  imports Main "HOL-Library.Multiset" "HOL-Library.Product_Lexorder"
begin

section \<open>Boards\<close>

text \<open>
  The program keeps the grid as a Python list of nine lists of nine ints, \<open>0\<close> meaning an
  empty cell. Rows and columns are indexed by \<open>range(9)\<close>; every index expression of the
  program stays inside the lists as long as the board is nine by nine and the coordinates
  are below nine, which is what \<open>wf_board\<close> and the bounds on \<open>row\<close> and \<open>col\<close> say in the
  theorems below.
\<close>

type_synonym board = "int list list"

definition wf_board :: "board \<Rightarrow> bool" where
  "wf_board b = (length b = 9 \<and> list_all (\<lambda>row. length row = 9) b)"

text \<open>\<open>board[row][col] = v\<close>\<close>

definition set_cell :: "board \<Rightarrow> nat \<Rightarrow> nat \<Rightarrow> int \<Rightarrow> board" where
  "set_cell b row col v = b[row := (b ! row)[col := v]]"

text \<open>\<open>[board[i][col] for i in range(9)]\<close>\<close>

definition column :: "board \<Rightarrow> nat \<Rightarrow> int list" where
  "column b col = map (\<lambda>i. b ! i ! col) [0..<9]"

text \<open>
  The cells visited by the nested loops
  \<open>for i in range(box_row, box_row + 3): for j in range(box_col, box_col + 3)\<close>
  with \<open>box_row, box_col = 3 * (row // 3), 3 * (col // 3)\<close>, in the order of the visit.
\<close>

definition box :: "board \<Rightarrow> nat \<Rightarrow> nat \<Rightarrow> int list" where
  "box b row col =
     (let box_row = 3 * (row div 3); box_col = 3 * (col div 3)
      in concat (map (\<lambda>i. map (\<lambda>j. b ! i ! j) [box_col..<box_col + 3])
                     [box_row..<box_row + 3]))"

section \<open>The candidate calculator and the move validator\<close>

definition is_valid :: "board \<Rightarrow> nat \<Rightarrow> nat \<Rightarrow> int \<Rightarrow> bool" where
  "is_valid b row col num =
     (if num \<in> set (b ! row) then False
      else if num \<in> set (column b col) then False
      else if list_ex (\<lambda>v. v = num) (box b row col) then False
      else True)"

definition get_candidates :: "board \<Rightarrow> nat \<Rightarrow> nat \<Rightarrow> int set" where
  "get_candidates b row col =
     (if b ! row ! col \<noteq> 0 then {}
      else
        let candidates = set [1..9];
            candidates = candidates - set (b ! row);
            candidates = candidates - set (column b col)
        in fold (\<lambda>v cs. cs - {v}) (box b row col) candidates)"

text \<open>
  The candidate set in the words of the specification: the digits one to nine without the
  digits present in the row, in the column and in the three by three box of the cell.
\<close>

definition row_digits :: "board \<Rightarrow> nat \<Rightarrow> int set" where
  "row_digits b r = {b ! r ! j | j. j < 9}"

definition col_digits :: "board \<Rightarrow> nat \<Rightarrow> int set" where
  "col_digits b c = {b ! i ! c | i. i < 9}"

definition box_digits :: "board \<Rightarrow> nat \<Rightarrow> nat \<Rightarrow> int set" where
  "box_digits b r c = {b ! i ! j | i j. i < 9 \<and> j < 9 \<and> i div 3 = r div 3 \<and> j div 3 = c div 3}"

definition candidates_spec :: "board \<Rightarrow> nat \<Rightarrow> nat \<Rightarrow> int set" where
  "candidates_spec b r c =
     (if b ! r ! c \<noteq> 0 then {}
      else {d. 1 \<le> d \<and> d \<le> 9} - row_digits b r - col_digits b c - box_digits b r c)"

section \<open>The priority queue\<close>

text \<open>
  A frontier entry is the tuple \<open>(len(candidates), row, col, candidates)\<close> pushed on the
  heap; \<open>pq\<close> is the Python list that \<open>heapq\<close> keeps in heap order.
\<close>

type_synonym entry = "nat \<times> nat \<times> nat \<times> int set"

text \<open>
  \<open>heapq\<close> is Python's standard library. Its operations are written here after the
  reference implementation of the module (\<open>heappush\<close>, \<open>heappop\<close>, \<open>_siftdown\<close>,
  \<open>_siftup\<close>), on the list that holds the heap. Items are compared with \<open><\<close> only;
  on tuples Python compares the first components that differ, and on sets \<open><\<close> is
  proper inclusion. \<open>heappop\<close> raises \<open>IndexError\<close> on the empty list, which is the
  value \<open>None\<close> here.
\<close>

definition entry_lt :: "entry \<Rightarrow> entry \<Rightarrow> bool" where
  "entry_lt x y =
     (case x of (n1, r1, c1, s1) \<Rightarrow> case y of (n2, r2, c2, s2) \<Rightarrow>
        if n1 \<noteq> n2 then n1 < n2
        else if r1 \<noteq> r2 then r1 < r2
        else if c1 \<noteq> c2 then c1 < c2
        else if s1 \<noteq> s2 then s1 \<subset> s2
        else False)"

function siftdown_loop :: "entry list \<Rightarrow> entry \<Rightarrow> nat \<Rightarrow> nat \<Rightarrow> entry list" where
  "siftdown_loop heap newitem startpos pos =
     (if pos > startpos then
        (let parentpos = (pos - 1) div 2;
             parent = heap ! parentpos
         in if entry_lt newitem parent
            then siftdown_loop (heap[pos := parent]) newitem startpos parentpos
            else heap[pos := newitem])
      else heap[pos := newitem])"
  by pat_completeness auto
termination
  by (relation "measure (\<lambda>(heap, newitem, startpos, pos). pos)") auto

definition siftdown :: "entry list \<Rightarrow> nat \<Rightarrow> nat \<Rightarrow> entry list" where
  "siftdown heap startpos pos = siftdown_loop heap (heap ! pos) startpos pos"

definition heappush :: "entry list \<Rightarrow> entry \<Rightarrow> entry list" where
  "heappush heap item = siftdown (heap @ [item]) 0 (length (heap @ [item]) - 1)"

function siftup_loop :: "entry list \<Rightarrow> nat \<Rightarrow> nat \<Rightarrow> entry list \<times> nat" where
  "siftup_loop heap endpos pos =
     (let childpos = 2 * pos + 1
      in if childpos < endpos then
           (let rightpos = childpos + 1;
                childpos = (if rightpos < endpos \<and> \<not> entry_lt (heap ! childpos) (heap ! rightpos)
                            then rightpos else childpos)
            in siftup_loop (heap[pos := heap ! childpos]) endpos childpos)
         else (heap, pos))"
  by pat_completeness auto
termination
  by (relation "measure (\<lambda>(heap, endpos, pos). endpos - pos)") (auto simp: Let_def)

definition siftup :: "entry list \<Rightarrow> nat \<Rightarrow> entry list" where
  "siftup heap pos =
     (let endpos = length heap;
          startpos = pos;
          newitem = heap ! pos;
          (heap, pos) = siftup_loop heap endpos pos
      in siftdown (heap[pos := newitem]) startpos pos)"

definition heappop :: "entry list \<Rightarrow> (entry \<times> entry list) option" where
  "heappop heap =
     (if heap = [] then None
      else
        let lastelt = last heap;
            heap = butlast heap
        in if heap \<noteq> [] then Some (heap ! 0, siftup (heap[0 := lastelt]) 0)
           else Some (lastelt, heap))"

declare siftdown_loop.simps [simp del] siftup_loop.simps [simp del]

lemma length_siftdown_loop [simp]: "length (siftdown_loop h x s p) = length h"
  by (induction h x s p rule: siftdown_loop.induct)
     (subst siftdown_loop.simps, simp add: Let_def)

lemma mset_swap_update:
  assumes "i < length h" and "j < length h"
  shows "mset (h[i := h ! j, j := x]) = mset (h[i := x])"
proof (cases "i = j")
  case True
  then show ?thesis by simp
next
  case False
  then show ?thesis using assms
    by (simp add: mset_update nth_list_update)
qed

lemma mset_siftdown_loop:
  "p < length h \<Longrightarrow> mset (siftdown_loop h x s p) = mset (h[p := x])"
proof (induction h x s p rule: siftdown_loop.induct)
  case (1 heap newitem startpos pos)
  have par: "(pos - 1) div 2 < length heap" using "1.prems" by simp
  show ?case
  proof (cases "pos > startpos \<and> entry_lt newitem (heap ! ((pos - 1) div 2))")
    case True
    then have "mset (siftdown_loop heap newitem startpos pos)
        = mset (heap[pos := heap ! ((pos - 1) div 2), (pos - 1) div 2 := newitem])"
      using "1.IH"[OF _ refl refl] par
      by (subst siftdown_loop.simps) (simp add: Let_def)
    then show ?thesis using mset_swap_update[OF "1.prems" par] by simp
  next
    case False
    then show ?thesis by (subst siftdown_loop.simps) (auto simp: Let_def)
  qed
qed

lemma siftup_loop_props:
  "p < length h \<Longrightarrow> endpos = length h \<Longrightarrow> siftup_loop h endpos p = (h', p') \<Longrightarrow>
   length h' = length h \<and> p' < length h \<and> mset (h'[p' := x]) = mset (h[p := x])"
proof (induction h endpos p arbitrary: h' p' rule: siftup_loop.induct)
  case (1 heap endpos pos)
  show ?case
  proof (cases "2 * pos + 1 < endpos")
    case False
    have "siftup_loop heap endpos pos = (heap, pos)"
      using False by (subst siftup_loop.simps) (simp add: Let_def)
    then show ?thesis using "1.prems" by simp
  next
    case True
    define cp where "cp = (if 2 * pos + 1 + 1 < endpos
                              \<and> \<not> entry_lt (heap ! (2 * pos + 1)) (heap ! (2 * pos + 1 + 1))
                            then 2 * pos + 1 + 1 else 2 * pos + 1)"
    have cp: "cp < length heap" using True "1.prems"(2) by (simp add: cp_def)
    have "siftup_loop heap endpos pos = siftup_loop (heap[pos := heap ! cp]) endpos cp"
      using True by (subst siftup_loop.simps) (simp add: Let_def cp_def)
    then have step: "siftup_loop (heap[pos := heap ! cp]) endpos cp = (h', p')"
      using "1.prems"(3) by simp
    have "length h' = length (heap[pos := heap ! cp]) \<and> p' < length (heap[pos := heap ! cp])
          \<and> mset (h'[p' := x]) = mset (heap[pos := heap ! cp, cp := x])"
    proof (rule "1.IH"[OF refl True refl cp_def _ _ step])
      show "cp < length (heap[pos := heap ! cp])" using cp by simp
      show "endpos = length (heap[pos := heap ! cp])" using "1.prems"(2) by simp
    qed
    then show ?thesis using mset_swap_update[OF "1.prems"(1) cp] by simp
  qed
qed

lemma length_heappush [simp]: "length (heappush h x) = Suc (length h)"
  by (simp add: heappush_def siftdown_def)

lemma mset_heappush [simp]: "mset (heappush h x) = add_mset x (mset h)"
  by (simp add: heappush_def siftdown_def mset_siftdown_loop)

lemma mset_siftup:
  assumes "p < length h"
  shows "mset (siftup h p) = mset h"
proof -
  obtain h' p' where l: "siftup_loop h (length h) p = (h', p')" by (cases "siftup_loop h (length h) p")
  from siftup_loop_props[OF assms refl l, of "h ! p"]
  have a: "length h' = length h" "p' < length h" "mset (h'[p' := h ! p]) = mset h" by simp_all
  have "siftup h p = siftdown_loop (h'[p' := h ! p]) (h ! p) p p'"
    using a by (simp add: siftup_def Let_def l siftdown_def)
  then show ?thesis using a by (simp add: mset_siftdown_loop)
qed

lemma heappop_None: "heappop h = None \<longleftrightarrow> h = []"
  unfolding heappop_def Let_def by (cases "h = []"; cases "butlast h = []"; simp)

lemma mset_heappop:
  assumes "heappop h = Some (e, h')"
  shows "mset h = add_mset e (mset h')"
proof -
  have ne: "h \<noteq> []" using assms by (auto simp: heappop_def)
  then obtain xs x where h: "h = xs @ [x]" by (metis rev_exhaust)
  show ?thesis
  proof (cases "xs = []")
    case True
    then show ?thesis using assms h by (simp add: heappop_def)
  next
    case False
    then have e: "e = xs ! 0" and h': "h' = siftup (xs[0 := x]) 0"
      using assms h by (simp_all add: heappop_def Let_def)
    have "mset h' = mset (xs[0 := x])" unfolding h' using False by (intro mset_siftup) simp
    also have "\<dots> = add_mset x (mset xs - {#xs ! 0#})" using False by (simp add: mset_update)
    finally show ?thesis using False by (simp add: h e)
  qed
qed

lemma length_heappop: "heappop h = Some (e, h') \<Longrightarrow> length h' < length h"
  using mset_heappop[of h e h'] by (metis size_mset size_add_mset lessI)

lemma set_heappop: "heappop h = Some (e, h') \<Longrightarrow> set h = insert e (set h')"
  using mset_heappop[of h e h'] by (metis set_mset_mset set_mset_add_mset_insert)

section \<open>Sessions\<close>

datatype turn = User | AI

datatype owner = ByUser | ByAI

record session =
  board :: board
  initial_board :: board
  current_turn :: turn
  cell_colors :: "owner option list list"
  pq :: "entry list"

definition no_colors :: "owner option list list" where
  "no_colors = replicate 9 (replicate 9 None)"

definition is_complete :: "session \<Rightarrow> bool" where
  "is_complete s =
     (\<not> list_ex (\<lambda>i. list_ex (\<lambda>j. board s ! i ! j = 0) [0..<9]) [0..<9])"

text \<open>\<open>copy.deepcopy\<close> is the identity on values.\<close>

definition reset_board :: "session \<Rightarrow> session" where
  "reset_board s =
     s\<lparr>board := initial_board s, current_turn := User, cell_colors := no_colors\<rparr>"

section \<open>Moves\<close>

text \<open>
  \<open>update_neighbors\<close> collects the cells of the row, the column and the box in a Python
  set and then iterates over that set. The order of the iteration is fixed by the
  interpreter, not by the program, so it is a parameter of the model: \<open>iter\<close> lists the
  elements of a set. \<open>random.choice(list(current_candidates))\<close> is the parameter
  \<open>choice\<close>, and the text of the entry widget that \<open>on_cell_edit\<close> reads is the
  parameter \<open>text\<close>: \<open>Blank\<close> when it is empty after \<open>strip()\<close>, \<open>NotInt\<close> when
  \<open>int(value)\<close> raises \<open>ValueError\<close>, and \<open>Num n\<close> when \<open>int(value)\<close> is \<open>n\<close>.
  The dialogs and the widget updates are not modelled; \<open>on_cell_edit\<close> returns the
  branch it took next to the new session.
\<close>

definition neighbours :: "nat \<Rightarrow> nat \<Rightarrow> (nat \<times> nat) set" where
  "neighbours row col =
     (let neighbours = fold (\<lambda>i s. insert (i, col) (insert (row, i) s)) [0..<9] {};
          box_row = 3 * (row div 3);
          box_col = 3 * (col div 3)
      in fold (\<lambda>i s. fold (\<lambda>j s. insert (i, j) s) [box_col..<box_col + 3] s)
              [box_row..<box_row + 3] neighbours)"

type_synonym set_order = "(nat \<times> nat) set \<Rightarrow> (nat \<times> nat) list"

text \<open>The tuple \<open>(len(candidates), row, col, candidates)\<close> for the cell \<open>(row, col)\<close>.\<close>

definition fresh_entry :: "board \<Rightarrow> nat \<times> nat \<Rightarrow> entry" where
  "fresh_entry b cell =
     (case cell of (row, col) \<Rightarrow>
        let candidates = get_candidates b row col
        in (card candidates, row, col, candidates))"

definition push_candidates :: "nat \<times> nat \<Rightarrow> session \<Rightarrow> session" where
  "push_candidates cell s = s\<lparr>pq := heappush (pq s) (fresh_entry (board s) cell)\<rparr>"

definition update_neighbors :: "set_order \<Rightarrow> nat \<Rightarrow> nat \<Rightarrow> session \<Rightarrow> session" where
  "update_neighbors iter row col s = fold push_candidates (iter (neighbours row col)) s"

definition set_color :: "owner option list list \<Rightarrow> nat \<Rightarrow> nat \<Rightarrow> owner option \<Rightarrow> owner option list list" where
  "set_color cs row col v = cs[row := (cs ! row)[col := v]]"

function ai_make_move :: "set_order \<Rightarrow> (int set \<Rightarrow> int) \<Rightarrow> session \<Rightarrow> bool \<times> session" where
  "ai_make_move iter choice s =
     (case heappop (pq s) of
        None \<Rightarrow> (False, s)
      | Some ((cnt, row, col, candidates), rest) \<Rightarrow>
          let s = s\<lparr>pq := rest\<rparr>
          in if board s ! row ! col \<noteq> 0 then ai_make_move iter choice s
             else
               let current_candidates = get_candidates (board s) row col
               in if current_candidates = {} then (False, s)
                  else
                    let value = choice current_candidates;
                        s = s\<lparr>board := set_cell (board s) row col value\<rparr>;
                        s = s\<lparr>cell_colors := set_color (cell_colors s) row col (Some ByAI)\<rparr>;
                        s = update_neighbors iter row col s
                    in (True, s))"
  by pat_completeness auto
termination
  by (relation "measure (\<lambda>(iter, choice, s). length (pq s))") (auto dest: length_heappop)

function drop_stale :: "board \<Rightarrow> entry list \<Rightarrow> entry list" where
  "drop_stale b q =
     (case q of
        [] \<Rightarrow> q
      | (cnt, row, col, candidates) # _ \<Rightarrow>
          if b ! row ! col \<noteq> 0
          then (case heappop q of None \<Rightarrow> q | Some (_, rest) \<Rightarrow> drop_stale b rest)
          else q)"
  by pat_completeness auto
termination
  by (relation "measure (\<lambda>(b, q). length q)") (auto dest: length_heappop)

declare ai_make_move.simps [simp del] drop_stale.simps [simp del]

text \<open>An entry is stale when its cell holds a digit: \<open>self.board[row][col] != 0\<close>.\<close>

definition stale :: "board \<Rightarrow> entry \<Rightarrow> bool" where
  "stale b e = (case e of (n, row, col, cs) \<Rightarrow> b ! row ! col \<noteq> 0)"

definition show_hint :: "session \<Rightarrow> (nat \<times> nat \<times> int set) option \<times> session" where
  "show_hint s =
     (if pq s = [] then (None, s)
      else
        let s = s\<lparr>pq := drop_stale (board s) (pq s)\<rparr>
        in if pq s = [] then (None, s)
           else
             (case pq s ! 0 of (_, row, col, candidates) \<Rightarrow>
                let real_candidates = get_candidates (board s) row col
                in (Some (row, col, real_candidates), s)))"

datatype cell_text = Blank | NotInt | Num int

datatype edit_outcome = Ignored | Cleared | BadInput | InvalidMove | Accepted | Completed

definition on_cell_edit ::
  "set_order \<Rightarrow> nat \<Rightarrow> nat \<Rightarrow> cell_text \<Rightarrow> session \<Rightarrow> edit_outcome \<times> session" where
  "on_cell_edit iter row col text s =
     (if current_turn s \<noteq> User then (Ignored, s)
      else if initial_board s ! row ! col \<noteq> 0 then (Ignored, s)
      else
        (case text of
           Blank \<Rightarrow>
             (Cleared, s\<lparr>board := set_cell (board s) row col 0,
                        cell_colors := set_color (cell_colors s) row col None\<rparr>)
         | NotInt \<Rightarrow> (BadInput, s\<lparr>board := set_cell (board s) row col 0\<rparr>)
         | Num num \<Rightarrow>
             if num < 1 \<or> num > 9 then (BadInput, s\<lparr>board := set_cell (board s) row col 0\<rparr>)
             else
               let temp = board s ! row ! col;
                   s = s\<lparr>board := set_cell (board s) row col 0\<rparr>
               in if is_valid (board s) row col num then
                    let s = s\<lparr>board := set_cell (board s) row col num\<rparr>;
                        s = update_neighbors iter row col s;
                        s = s\<lparr>cell_colors := set_color (cell_colors s) row col (Some ByUser)\<rparr>
                    in if is_complete s then (Completed, s)
                       else (Accepted, s\<lparr>current_turn := AI\<rparr>)
                  else (InvalidMove, s\<lparr>board := set_cell (board s) row col temp\<rparr>)))"

definition ai_turn :: "set_order \<Rightarrow> (int set \<Rightarrow> int) \<Rightarrow> session \<Rightarrow> session" where
  "ai_turn iter choice s =
     (case ai_make_move iter choice s of (success, s) \<Rightarrow>
        if \<not> success then s
        else if is_complete s then s
        else s\<lparr>current_turn := User\<rparr>)"

section \<open>The puzzle generator\<close>

text \<open>
  \<open>random.shuffle(xs)\<close> rearranges \<open>xs\<close> by a permutation of its positions, which the
  model takes as a parameter: \<open>shuffle p xs\<close> lists \<open>xs\<close> in the order \<open>p\<close>.
  \<open>zip_star\<close> is \<open>list(map(list, zip(*board)))\<close>, cut at the shortest row as \<open>zip\<close> does.
\<close>

definition shuffle :: "nat list \<Rightarrow> 'a list \<Rightarrow> 'a list" where
  "shuffle p xs = map (\<lambda>k. xs ! k) p"

definition is_permutation :: "nat list \<Rightarrow> nat \<Rightarrow> bool" where
  "is_permutation p n = (length p = n \<and> distinct p \<and> list_all (\<lambda>k. k < n) p)"

definition pattern :: "nat \<Rightarrow> nat \<Rightarrow> nat" where
  "pattern r c = (3 * (r mod 3) + r div 3 + c) mod 9"

definition get_base_pattern :: "nat list \<Rightarrow> board" where
  "get_base_pattern p =
     (let nums = shuffle p [1..9]
      in map (\<lambda>r. map (\<lambda>c. nums ! pattern r c) [0..<9]) [0..<9])"

definition zip_star :: "'a list list \<Rightarrow> 'a list list" where
  "zip_star b =
     (if b = [] then []
      else map (\<lambda>j. map (\<lambda>row. row ! j) b) [0..<foldr min (map length (tl b)) (length (hd b))])"

definition shuffle_block :: "nat list \<Rightarrow> nat \<Rightarrow> 'a list \<Rightarrow> 'a list" where
  "shuffle_block p i b = take i b @ shuffle p (take 3 (drop i b)) @ drop (i + 3) b"

definition shuffle_within :: "nat list \<Rightarrow> nat list \<Rightarrow> nat list \<Rightarrow> 'a list \<Rightarrow> 'a list" where
  "shuffle_within p0 p1 p2 b = shuffle_block p2 6 (shuffle_block p1 3 (shuffle_block p0 0 b))"

definition shuffle_groups :: "nat list \<Rightarrow> 'a list \<Rightarrow> 'a list" where
  "shuffle_groups p b = concat (shuffle p (map (\<lambda>i. take 3 (drop i b)) [0, 3, 6]))"

record shuffles =
  rows0 :: "nat list"
  rows1 :: "nat list"
  rows2 :: "nat list"
  cols0 :: "nat list"
  cols1 :: "nat list"
  cols2 :: "nat list"
  bands :: "nat list"
  stacks :: "nat list"

definition shuffle_rows_in_bands :: "shuffles \<Rightarrow> board \<Rightarrow> board" where
  "shuffle_rows_in_bands sh b = shuffle_within (rows0 sh) (rows1 sh) (rows2 sh) b"

definition shuffle_cols_in_stacks :: "shuffles \<Rightarrow> board \<Rightarrow> board" where
  "shuffle_cols_in_stacks sh b =
     zip_star (shuffle_within (cols0 sh) (cols1 sh) (cols2 sh) (zip_star b))"

definition shuffle_bands :: "shuffles \<Rightarrow> board \<Rightarrow> board" where
  "shuffle_bands sh b = shuffle_groups (bands sh) b"

definition shuffle_stacks :: "shuffles \<Rightarrow> board \<Rightarrow> board" where
  "shuffle_stacks sh b = zip_star (shuffle_groups (stacks sh) (zip_star b))"

definition shuffle_board :: "shuffles \<Rightarrow> board \<Rightarrow> board" where
  "shuffle_board sh b =
     shuffle_stacks sh (shuffle_bands sh (shuffle_cols_in_stacks sh (shuffle_rows_in_bands sh b)))"

definition shuffles_ok :: "shuffles \<Rightarrow> bool" where
  "shuffles_ok sh =
     (is_permutation (rows0 sh) 3 \<and> is_permutation (rows1 sh) 3 \<and> is_permutation (rows2 sh) 3 \<and>
      is_permutation (cols0 sh) 3 \<and> is_permutation (cols1 sh) 3 \<and> is_permutation (cols2 sh) 3 \<and>
      is_permutation (bands sh) 3 \<and> is_permutation (stacks sh) 3)"

record randomness =
  digits :: "nat list"
  board_shuffles :: shuffles
  cell_order :: "nat list"
  remove_count :: nat

definition randomness_ok :: "randomness \<Rightarrow> bool" where
  "randomness_ok g =
     (is_permutation (digits g) 9 \<and> shuffles_ok (board_shuffles g) \<and>
      is_permutation (cell_order g) 81 \<and> 40 \<le> remove_count g \<and> remove_count g \<le> 45)"

definition solved_board :: "randomness \<Rightarrow> board" where
  "solved_board g = shuffle_board (board_shuffles g) (get_base_pattern (digits g))"

definition generate_puzzle :: "randomness \<Rightarrow> board" where
  "generate_puzzle g =
     (let full_board = solved_board g;
          cells = concat (map (\<lambda>i. map (\<lambda>j. (i, j)) [0..<9]) [0..<9]);
          cells = shuffle (cell_order g) cells
      in fold (\<lambda>i b. case cells ! i of (r, c) \<Rightarrow> set_cell b r c 0) [0..<remove_count g] full_board)"

definition initialize_priority_queue :: "session \<Rightarrow> session" where
  "initialize_priority_queue s =
     fold (\<lambda>i s. fold (\<lambda>j s.
             if board s ! i ! j = 0 then
               (let candidates = get_candidates (board s) i j
                in if candidates \<noteq> {} then push_candidates (i, j) s else s)
             else s) [0..<9] s) [0..<9] (s\<lparr>pq := []\<rparr>)"

definition new_game :: "randomness \<Rightarrow> session \<Rightarrow> session" where
  "new_game g s =
     (let s = s\<lparr>board := generate_puzzle g\<rparr>;
          s = s\<lparr>initial_board := board s\<rparr>;
          s = s\<lparr>current_turn := User\<rparr>;
          s = s\<lparr>cell_colors := no_colors\<rparr>
      in initialize_priority_queue s)"

definition init :: "randomness \<Rightarrow> session" where
  "init g =
     (let s = \<lparr>board = replicate 9 (replicate 9 0), initial_board = replicate 9 (replicate 9 0),
               current_turn = User, cell_colors = replicate 9 (replicate 9 None), pq = []\<rparr>;
          s = new_game g s
      in s\<lparr>pq := []\<rparr>)"

definition nodup :: "int list \<Rightarrow> bool" where
  "nodup xs = distinct (filter (\<lambda>v. v \<noteq> 0) xs)"

definition valid_board :: "board \<Rightarrow> bool" where
  "valid_board b =
     (list_all (\<lambda>r. nodup (b ! r)) [0..<9] \<and>
      list_all (\<lambda>c. nodup (column b c)) [0..<9] \<and>
      list_all (\<lambda>r. list_all (\<lambda>c. nodup (box b r c)) [0, 3, 6]) [0, 3, 6])"

text \<open>
  The same invariant cell by cell: two cells of one row, column or box that hold the
  same digit are the same cell.
\<close>

definition conflict_free :: "board \<Rightarrow> bool" where
  "conflict_free b =
     (\<forall>r1<9. \<forall>c1<9. \<forall>r2<9. \<forall>c2<9.
        b ! r1 ! c1 \<noteq> 0 \<longrightarrow> b ! r1 ! c1 = b ! r2 ! c2 \<longrightarrow>
        (r1 = r2 \<or> c1 = c2 \<or> (r1 div 3 = r2 div 3 \<and> c1 div 3 = c2 div 3)) \<longrightarrow>
        r1 = r2 \<and> c1 = c2)"

definition demo_rand :: randomness where
  "demo_rand = \<lparr>digits = [2, 0, 1, 5, 3, 4, 8, 6, 7],
     board_shuffles = \<lparr>rows0 = [1, 0, 2], rows1 = [2, 1, 0], rows2 = [0, 2, 1],
                       cols0 = [0, 1, 2], cols1 = [1, 2, 0], cols2 = [2, 0, 1],
                       bands = [2, 0, 1], stacks = [1, 0, 2]\<rparr>,
     cell_order = [0..<81], remove_count = 42\<rparr>"


section \<open>Example boards\<close>

text \<open>
  The solved grid that \<open>get_base_pattern\<close> builds when the digit shuffle leaves
  \<open>[1, ..., 9]\<close> in place, and a puzzle cut from it.
\<close>

definition demo_solved :: board where
  "demo_solved =
    [[1, 2, 3, 4, 5, 6, 7, 8, 9],
     [4, 5, 6, 7, 8, 9, 1, 2, 3],
     [7, 8, 9, 1, 2, 3, 4, 5, 6],
     [2, 3, 4, 5, 6, 7, 8, 9, 1],
     [5, 6, 7, 8, 9, 1, 2, 3, 4],
     [8, 9, 1, 2, 3, 4, 5, 6, 7],
     [3, 4, 5, 6, 7, 8, 9, 1, 2],
     [6, 7, 8, 9, 1, 2, 3, 4, 5],
     [9, 1, 2, 3, 4, 5, 6, 7, 8]]"

definition demo_puzzle :: board where
  "demo_puzzle =
    [[1, 2, 0, 4, 5, 6, 7, 8, 9],
     [4, 5, 6, 7, 8, 9, 1, 2, 3],
     [7, 8, 9, 1, 2, 3, 4, 5, 6],
     [2, 3, 4, 5, 6, 7, 8, 9, 1],
     [5, 6, 7, 8, 0, 1, 2, 3, 4],
     [8, 9, 1, 2, 3, 4, 5, 6, 7],
     [3, 4, 5, 6, 7, 8, 9, 1, 2],
     [6, 7, 8, 9, 1, 2, 3, 4, 5],
     [9, 1, 2, 3, 4, 5, 6, 7, 0]]"

definition session_ok :: "session \<Rightarrow> bool" where
  "session_ok s =
     (wf_board (board s) \<and> wf_board (initial_board s) \<and>
      list_all (\<lambda>e. case e of (n, r, c, cs) \<Rightarrow> r < 9 \<and> c < 9) (pq s))"

definition demo_start :: board where
  "demo_start =
    [[0, 0, 0, 0, 0, 0, 0, 0, 0],
     [0, 0, 0, 0, 0, 0, 0, 0, 0],
     [0, 0, 0, 0, 0, 0, 0, 0, 0],
     [0, 0, 0, 0, 0, 0, 0, 0, 0],
     [0, 0, 0, 0, 0, 0, 8, 9, 7],
     [1, 2, 3, 9, 7, 8, 5, 6, 4],
     [2, 6, 1, 7, 8, 3, 9, 4, 5],
     [8, 3, 7, 4, 5, 9, 6, 1, 2],
     [5, 9, 4, 1, 2, 6, 3, 7, 8]]"

definition demo_fresh :: session where
  "demo_fresh =
     \<lparr>board = demo_start, initial_board = demo_start, current_turn = User,
      cell_colors = no_colors, pq = []\<rparr>"

definition demo_user_moved :: session where
  "demo_user_moved =
     \<lparr>board = set_cell demo_start 0 0 9, initial_board = demo_start, current_turn = AI,
      cell_colors = set_color no_colors 0 0 (Some ByUser),
      pq = [(0, 0, 0, {}), (0, 5, 0, {}), (4, 0, 2, {2, 5, 6, 8}), (0, 6, 0, {}),
            (0, 7, 0, {}), (4, 1, 2, {2, 5, 6, 8}), (4, 0, 6, {1, 2, 4, 7}),
            (3, 3, 0, {4, 6, 7}), (2, 4, 0, {4, 6}), (0, 8, 0, {}),
            (5, 1, 1, {1, 4, 5, 7, 8}), (5, 0, 5, {1, 2, 4, 5, 7}),
            (4, 2, 0, {3, 4, 6, 7}), (5, 2, 1, {1, 4, 5, 7, 8}),
            (4, 2, 2, {2, 5, 6, 8}), (5, 0, 3, {2, 3, 5, 6, 8}),
            (4, 0, 4, {1, 3, 4, 6}), (4, 0, 7, {2, 3, 5, 8}), (3, 0, 8, {1, 3, 6}),
            (5, 0, 1, {1, 4, 5, 7, 8}), (4, 1, 0, {3, 4, 6, 7})]\<rparr>"

text \<open>
  The session after the automated reply to that move. The reply first discards the stale
  entries of the frontier; \<open>demo_live_queue\<close> is the frontier that is left and
  \<open>demo_rest_queue\<close> the frontier after its head has been popped.
\<close>

definition demo_live_queue :: "entry list" where
  "demo_live_queue =
     [(2, 4, 0, {4, 6}), (3, 0, 8, {1, 3, 6}), (4, 0, 2, {2, 5, 6, 8}),
      (3, 3, 0, {4, 6, 7}), (4, 1, 0, {3, 4, 6, 7}), (4, 1, 2, {2, 5, 6, 8}),
      (4, 0, 6, {1, 2, 4, 7}), (4, 0, 4, {1, 3, 4, 6}),
      (4, 0, 7, {2, 3, 5, 8}), (5, 0, 1, {1, 4, 5, 7, 8}),
      (5, 1, 1, {1, 4, 5, 7, 8}), (5, 0, 5, {1, 2, 4, 5, 7}),
      (4, 2, 0, {3, 4, 6, 7}), (5, 2, 1, {1, 4, 5, 7, 8}),
      (4, 2, 2, {2, 5, 6, 8}), (5, 0, 3, {2, 3, 5, 6, 8})]"

definition demo_rest_queue :: "entry list" where
  "demo_rest_queue =
     [(3, 0, 8, {1, 3, 6}), (3, 3, 0, {4, 6, 7}), (4, 0, 2, {2, 5, 6, 8}),
      (4, 0, 4, {1, 3, 4, 6}), (4, 1, 0, {3, 4, 6, 7}),
      (4, 1, 2, {2, 5, 6, 8}), (4, 0, 6, {1, 2, 4, 7}),
      (5, 0, 3, {2, 3, 5, 6, 8}), (4, 0, 7, {2, 3, 5, 8}),
      (5, 0, 1, {1, 4, 5, 7, 8}), (5, 1, 1, {1, 4, 5, 7, 8}),
      (5, 0, 5, {1, 2, 4, 5, 7}), (4, 2, 0, {3, 4, 6, 7}),
      (5, 2, 1, {1, 4, 5, 7, 8}), (4, 2, 2, {2, 5, 6, 8})]"

definition demo_played :: session where
  "demo_played = ai_turn sorted_list_of_set Min demo_user_moved"


text \<open>
  The session inside \<open>on_cell_edit\<close> at the call of \<open>update_neighbors\<close>, when the user
  enters 9 at (0, 0) in the fresh session.
\<close>

definition demo_before_refresh :: session where
  "demo_before_refresh = demo_fresh\<lparr>board := set_cell demo_start 0 0 9\<rparr>"


section \<open>Facts about rows, columns and boxes\<close>

lemma wf_board_row: "wf_board b \<Longrightarrow> r < 9 \<Longrightarrow> length (b ! r) = 9"
  by (simp add: wf_board_def list_all_length)

lemma set_row_digits: "wf_board b \<Longrightarrow> r < 9 \<Longrightarrow> set (b ! r) = row_digits b r"
  by (auto simp: row_digits_def in_set_conv_nth wf_board_row)

lemma set_column: "set (column b c) = col_digits b c"
  by (auto simp: column_def col_digits_def)

lemma div3_iff: "(3 * k \<le> i \<and> i < 3 * k + 3) \<longleftrightarrow> i div 3 = (k::nat)"
  by arith

lemma div3_lt9: "r < 9 \<Longrightarrow> i div 3 = r div 3 \<Longrightarrow> i < (9::nat)"
  by arith

lemma box_conv:
  "box b r c = map (\<lambda>(i, j). b ! i ! j)
     (List.product [3 * (r div 3)..<3 * (r div 3) + 3] [3 * (c div 3)..<3 * (c div 3) + 3])"
proof -
  have "concat (map (\<lambda>i. map (\<lambda>j. g i j) ys) xs) = map (\<lambda>(i, j). g i j) (List.product xs ys)"
    for g :: "nat \<Rightarrow> nat \<Rightarrow> int" and xs ys
    by (induction xs) (simp_all add: comp_def)
  then show ?thesis by (simp add: box_def Let_def)
qed

lemma set_box_cells:
  assumes "r < 9" and "c < 9"
  shows "set (List.product [3 * (r div 3)..<3 * (r div 3) + 3] [3 * (c div 3)..<3 * (c div 3) + 3])
     = {(i, j). i < 9 \<and> j < 9 \<and> i div 3 = r div 3 \<and> j div 3 = c div 3}"
  using div3_lt9[OF assms(1)] div3_lt9[OF assms(2)]
  by (auto simp del: upt_Suc simp add: div3_iff)

lemma set_box: "r < 9 \<Longrightarrow> c < 9 \<Longrightarrow> set (box b r c) = box_digits b r c"
  by (simp only: box_conv set_map set_box_cells box_digits_def) auto

lemma fold_discard: "fold (\<lambda>v cs. cs - {v}) xs S = S - set xs"
  by (induction xs arbitrary: S) auto

lemma get_candidates_conv:
  "get_candidates b r c =
     (if b ! r ! c \<noteq> 0 then {}
      else {1..9} - set (b ! r) - set (column b c) - set (box b r c))"
  by (simp add: get_candidates_def Let_def fold_discard)

lemma is_valid_conv:
  "is_valid b r c d \<longleftrightarrow> d \<notin> set (b ! r) \<and> d \<notin> set (column b c) \<and> d \<notin> set (box b r c)"
  by (auto simp: is_valid_def list_ex_iff)

section \<open>Facts about the frontier and the automated move\<close>

lemma push_candidates_fields [simp]:
  "board (push_candidates cell s) = board s"
  "initial_board (push_candidates cell s) = initial_board s"
  "current_turn (push_candidates cell s) = current_turn s"
  "cell_colors (push_candidates cell s) = cell_colors s"
  by (simp_all add: push_candidates_def)

lemma fold_push_fields [simp]:
  "board (fold push_candidates xs s) = board s"
  "initial_board (fold push_candidates xs s) = initial_board s"
  "current_turn (fold push_candidates xs s) = current_turn s"
  "cell_colors (fold push_candidates xs s) = cell_colors s"
  by (induction xs arbitrary: s) simp_all

lemma update_neighbors_fields [simp]:
  "board (update_neighbors iter r c s) = board s"
  "initial_board (update_neighbors iter r c s) = initial_board s"
  "current_turn (update_neighbors iter r c s) = current_turn s"
  "cell_colors (update_neighbors iter r c s) = cell_colors s"
  by (simp_all add: update_neighbors_def)

lemma mset_pq_fold_push:
  "mset (pq (fold push_candidates xs s)) = mset (pq s) + mset (map (fresh_entry (board s)) xs)"
  by (induction xs arbitrary: s) (simp_all add: push_candidates_def)

lemma mset_pq_update_neighbors:
  assumes "distinct (iter (neighbours r c))" and "set (iter (neighbours r c)) = neighbours r c"
  shows "mset (pq (update_neighbors iter r c s))
       = mset (pq s) + image_mset (fresh_entry (board s)) (mset_set (neighbours r c))"
proof -
  have "mset (iter (neighbours r c)) = mset_set (neighbours r c)"
    using assms by (metis mset_set_set)
  then show ?thesis
    by (simp add: update_neighbors_def mset_pq_fold_push)
qed

lemma neighbours_conv:
  "neighbours r c =
     {(i, j). (i = r \<and> j < 9) \<or> (j = c \<and> i < 9)
            \<or> (i div 3 = r div 3 \<and> j div 3 = c div 3)}"
proof -
  have a: "fold (\<lambda>i s. insert (i, c) (insert (r, i) s)) xs S
        = S \<union> {(r, i) | i. i \<in> set xs} \<union> {(i, c) | i. i \<in> set xs}" for xs S
    by (induction xs arbitrary: S) auto
  have b: "fold (\<lambda>j s. insert (i, j) s) ys S = S \<union> {(i, j) | j. j \<in> set ys}" for i ys and S :: "(nat \<times> nat) set"
    by (induction ys arbitrary: S) auto
  have c: "fold (\<lambda>i s. fold (\<lambda>j s. insert (i, j) s) ys s) xs S
        = S \<union> {(i, j) | i j. i \<in> set xs \<and> j \<in> set ys}" for xs ys and S :: "(nat \<times> nat) set"
    by (induction xs arbitrary: S) (auto simp: b)
  show ?thesis
    unfolding neighbours_def Let_def a c
    by (auto simp del: upt_Suc simp add: div3_iff)
qed

lemma neighbours_in_range:
  assumes "r < 9" and "c < 9"
  shows "neighbours r c =
     {(i, j). i < 9 \<and> j < 9 \<and> (i = r \<or> j = c \<or> (i div 3 = r div 3 \<and> j div 3 = c div 3))}"
  unfolding neighbours_conv using assms div3_lt9[OF assms(1)] div3_lt9[OF assms(2)] by auto

lemma card_band_less: "card ({3 * k..<3 * k + 3} - {r}) = 2" if "r div 3 = k" for r k :: nat
proof -
  have "r \<in> {3 * k..<3 * k + 3}" using that div3_iff[of k r] by simp
  then show ?thesis by simp
qed

lemma card_neighbours:
  assumes "r < 9" and "c < 9"
  shows "card (neighbours r c) = 21"
proof -
  define A where "A = {r} \<times> {0..<9::nat}"
  define B where "B = ({0..<9} - {r}) \<times> {c}"
  define C where "C = ({3 * (r div 3)..<3 * (r div 3) + 3} - {r}) \<times> ({3 * (c div 3)..<3 * (c div 3) + 3} - {c})"
  have fin: "finite A" "finite B" "finite C" by (simp_all add: A_def B_def C_def)
  have cA: "card A = 9" by (simp add: A_def card_cartesian_product)
  have cB: "card B = 8" using assms by (simp add: B_def card_cartesian_product)
  have cC: "card C = 4" by (simp add: C_def card_cartesian_product card_band_less del: card_Diff_insert)
  have dis: "A \<inter> B = {}" "(A \<union> B) \<inter> C = {}" by (auto simp: A_def B_def C_def)
  have "neighbours r c = A \<union> B \<union> C"
    unfolding neighbours_conv A_def B_def C_def
    using assms div3_lt9[OF assms(1)] div3_lt9[OF assms(2)]
    by (auto simp: div3_iff)
  then have "card (neighbours r c) = card A + card B + card C"
    using fin dis by (simp add: card_Un_disjoint)
  then show ?thesis by (simp add: cA cB cC)
qed

lemma ai_make_move_None:
  "pq s = [] \<Longrightarrow> ai_make_move iter choice s = (False, s)"
  by (subst ai_make_move.simps) (simp add: heappop_def)

lemma ai_make_move_stale:
  "heappop (pq s) = Some ((n, r, c, cs), rest) \<Longrightarrow> board s ! r ! c \<noteq> 0 \<Longrightarrow>
   ai_make_move iter choice s = ai_make_move iter choice (s\<lparr>pq := rest\<rparr>)"
  by (subst ai_make_move.simps) (simp add: Let_def)

lemma ai_make_move_dead:
  "heappop (pq s) = Some ((n, r, c, cs), rest) \<Longrightarrow> board s ! r ! c = 0 \<Longrightarrow>
   get_candidates (board s) r c = {} \<Longrightarrow>
   ai_make_move iter choice s = (False, s\<lparr>pq := rest\<rparr>)"
  by (subst ai_make_move.simps) (simp add: Let_def)

lemma ai_make_move_place:
  "heappop (pq s) = Some ((n, r, c, cs), rest) \<Longrightarrow> board s ! r ! c = 0 \<Longrightarrow>
   get_candidates (board s) r c \<noteq> {} \<Longrightarrow>
   ai_make_move iter choice s =
     (True, update_neighbors iter r c
        (s\<lparr>pq := rest,
           board := set_cell (board s) r c (choice (get_candidates (board s) r c)),
           cell_colors := set_color (cell_colors s) r c (Some ByAI)\<rparr>))"
  by (subst ai_make_move.simps) (simp add: Let_def)

lemma ai_make_move_result:
  "ai_make_move iter choice s = (ok, s') \<Longrightarrow>
     initial_board s' = initial_board s \<and> current_turn s' = current_turn s \<and>
     (if ok
      then (\<exists>n r c cs. (n, r, c, cs) \<in> set (pq s) \<and> board s ! r ! c = 0
              \<and> get_candidates (board s) r c \<noteq> {}
              \<and> board s' = set_cell (board s) r c (choice (get_candidates (board s) r c)))
      else board s' = board s \<and> cell_colors s' = cell_colors s)"
proof (induction "length (pq s)" arbitrary: s rule: less_induct)
  case less
  show ?case
  proof (cases "heappop (pq s)")
    case None
    then have "pq s = []" by (simp add: heappop_None)
    then show ?thesis using less.prems by (simp add: ai_make_move_None)
  next
    case (Some a)
    obtain n r c cs rest where a: "a = ((n, r, c, cs), rest)" by (metis prod_cases4 surj_pair)
    have pop: "heappop (pq s) = Some ((n, r, c, cs), rest)" using Some a by simp
    have mem: "set (pq s) = insert (n, r, c, cs) (set rest)"
      using pop by (rule set_heappop)
    show ?thesis
    proof (cases "board s ! r ! c \<noteq> 0")
      case True
      have eq: "ai_make_move iter choice (s\<lparr>pq := rest\<rparr>) = (ok, s')"
        using less.prems ai_make_move_stale[OF pop True] by simp
      have len: "length (pq (s\<lparr>pq := rest\<rparr>)) < length (pq s)"
        using length_heappop[OF pop] by simp
      have IH: "initial_board s' = initial_board s \<and> current_turn s' = current_turn s \<and>
         (if ok
          then (\<exists>n r c cs. (n, r, c, cs) \<in> set rest \<and> board s ! r ! c = 0
                  \<and> get_candidates (board s) r c \<noteq> {}
                  \<and> board s' = set_cell (board s) r c (choice (get_candidates (board s) r c)))
          else board s' = board s \<and> cell_colors s' = cell_colors s)"
        using less.hyps[OF len eq] by (cases ok) simp_all
      show ?thesis
      proof (cases ok)
        case True
        then have "\<exists>n r c cs. (n, r, c, cs) \<in> set rest \<and> board s ! r ! c = 0
                  \<and> get_candidates (board s) r c \<noteq> {}
                  \<and> board s' = set_cell (board s) r c (choice (get_candidates (board s) r c))"
          using IH by simp
        then obtain n' r' c' cs' where w: "(n', r', c', cs') \<in> set rest" "board s ! r' ! c' = 0"
            "get_candidates (board s) r' c' \<noteq> {}"
            "board s' = set_cell (board s) r' c' (choice (get_candidates (board s) r' c'))"
          by blast
        have "\<exists>n r c cs. (n, r, c, cs) \<in> set (pq s) \<and> board s ! r ! c = 0
              \<and> get_candidates (board s) r c \<noteq> {}
              \<and> board s' = set_cell (board s) r c (choice (get_candidates (board s) r c))"
          using w mem by blast
        then show ?thesis using True IH by simp
      next
        case False
        then show ?thesis using IH by simp
      qed
    next
      case False
      show ?thesis
      proof (cases "get_candidates (board s) r c = {}")
        case True
        then show ?thesis using less.prems False ai_make_move_dead[OF pop _ True, of iter choice] by auto
      next
        case nonempty: False
        have z: "board s ! r ! c = 0" using False by simp
        have ok: "ok" and s': "s' = update_neighbors iter r c
              (s\<lparr>pq := rest,
                 board := set_cell (board s) r c (choice (get_candidates (board s) r c)),
                 cell_colors := set_color (cell_colors s) r c (Some ByAI)\<rparr>)"
          using less.prems ai_make_move_place[OF pop z nonempty, of iter choice] by simp_all
        have "(n, r, c, cs) \<in> set (pq s)" using mem by simp
        then have "\<exists>n r c cs. (n, r, c, cs) \<in> set (pq s) \<and> board s ! r ! c = 0
              \<and> get_candidates (board s) r c \<noteq> {}
              \<and> board s' = set_cell (board s) r c (choice (get_candidates (board s) r c))"
          using z nonempty s'
          by (intro exI[of _ n] exI[of _ r] exI[of _ c] exI[of _ cs]) simp
        then show ?thesis using ok s' by simp
      qed
    qed
  qed
qed

section \<open>Facts about sessions\<close>

lemma initialize_priority_queue_fields [simp]:
  "board (initialize_priority_queue s) = board s"
  "initial_board (initialize_priority_queue s) = initial_board s"
  "current_turn (initialize_priority_queue s) = current_turn s"
  "cell_colors (initialize_priority_queue s) = cell_colors s"
proof -
  have inner: "board (fold (\<lambda>j s. if board s ! i ! j = 0 then
               (let candidates = get_candidates (board s) i j
                in if candidates \<noteq> {} then push_candidates (i, j) s else s)
             else s) js s) = board s \<and>
        initial_board (fold (\<lambda>j s. if board s ! i ! j = 0 then
               (let candidates = get_candidates (board s) i j
                in if candidates \<noteq> {} then push_candidates (i, j) s else s)
             else s) js s) = initial_board s \<and>
        current_turn (fold (\<lambda>j s. if board s ! i ! j = 0 then
               (let candidates = get_candidates (board s) i j
                in if candidates \<noteq> {} then push_candidates (i, j) s else s)
             else s) js s) = current_turn s \<and>
        cell_colors (fold (\<lambda>j s. if board s ! i ! j = 0 then
               (let candidates = get_candidates (board s) i j
                in if candidates \<noteq> {} then push_candidates (i, j) s else s)
             else s) js s) = cell_colors s" for i js s
    by (induction js arbitrary: s) (simp_all add: Let_def)
  have outer: "board (fold (\<lambda>i s. fold (\<lambda>j s. if board s ! i ! j = 0 then
               (let candidates = get_candidates (board s) i j
                in if candidates \<noteq> {} then push_candidates (i, j) s else s)
             else s) js s) is s) = board s \<and>
       initial_board (fold (\<lambda>i s. fold (\<lambda>j s. if board s ! i ! j = 0 then
               (let candidates = get_candidates (board s) i j
                in if candidates \<noteq> {} then push_candidates (i, j) s else s)
             else s) js s) is s) = initial_board s \<and>
       current_turn (fold (\<lambda>i s. fold (\<lambda>j s. if board s ! i ! j = 0 then
               (let candidates = get_candidates (board s) i j
                in if candidates \<noteq> {} then push_candidates (i, j) s else s)
             else s) js s) is s) = current_turn s \<and>
       cell_colors (fold (\<lambda>i s. fold (\<lambda>j s. if board s ! i ! j = 0 then
               (let candidates = get_candidates (board s) i j
                in if candidates \<noteq> {} then push_candidates (i, j) s else s)
             else s) js s) is s) = cell_colors s" for "is" js s
    by (induction "is" arbitrary: s) (simp_all add: inner)
  show "board (initialize_priority_queue s) = board s"
    "initial_board (initialize_priority_queue s) = initial_board s"
    "current_turn (initialize_priority_queue s) = current_turn s"
    "cell_colors (initialize_priority_queue s) = cell_colors s"
    unfolding initialize_priority_queue_def by (simp_all add: outer)
qed

lemma init_conv:
  "init g = \<lparr>board = generate_puzzle g, initial_board = generate_puzzle g, current_turn = User,
             cell_colors = no_colors, pq = []\<rparr>"
  by (rule session.equality) (simp_all add: init_def new_game_def Let_def)

lemma demo_start_generated: "generate_puzzle demo_rand = demo_start"
  by code_simp

lemma demo_fresh_reached: "init demo_rand = demo_fresh"
  by (simp add: init_conv demo_start_generated demo_fresh_def)

lemma demo_user_moved_reached:
  "on_cell_edit sorted_list_of_set 0 0 (Num 9) demo_fresh = (Accepted, demo_user_moved)"
  by code_simp

lemma on_cell_edit_ignored:
  "current_turn s \<noteq> User \<or> initial_board s ! r ! c \<noteq> 0 \<Longrightarrow>
   on_cell_edit iter r c text s = (Ignored, s)"
  by (auto simp: on_cell_edit_def)

lemma on_cell_edit_bad:
  "current_turn s = User \<Longrightarrow> initial_board s ! r ! c = 0 \<Longrightarrow>
   text = NotInt \<or> (\<exists>n. text = Num n \<and> (n < 1 \<or> 9 < n)) \<Longrightarrow>
   on_cell_edit iter r c text s = (BadInput, s\<lparr>board := set_cell (board s) r c 0\<rparr>)"
  by (auto simp: on_cell_edit_def)

lemma on_cell_edit_blank:
  "current_turn s = User \<Longrightarrow> initial_board s ! r ! c = 0 \<Longrightarrow>
   on_cell_edit iter r c Blank s =
     (Cleared, s\<lparr>board := set_cell (board s) r c 0,
                 cell_colors := set_color (cell_colors s) r c None\<rparr>)"
  by (simp add: on_cell_edit_def)

lemma on_cell_edit_invalid:
  "current_turn s = User \<Longrightarrow> initial_board s ! r ! c = 0 \<Longrightarrow> 1 \<le> n \<Longrightarrow> n \<le> 9 \<Longrightarrow>
   \<not> is_valid (set_cell (board s) r c 0) r c n \<Longrightarrow>
   on_cell_edit iter r c (Num n) s =
     (InvalidMove, s\<lparr>board := set_cell (set_cell (board s) r c 0) r c (board s ! r ! c)\<rparr>)"
  by (simp add: on_cell_edit_def Let_def)

lemma on_cell_edit_valid:
  "current_turn s = User \<Longrightarrow> initial_board s ! r ! c = 0 \<Longrightarrow> 1 \<le> n \<Longrightarrow> n \<le> 9 \<Longrightarrow>
   is_valid (set_cell (board s) r c 0) r c n \<Longrightarrow>
   \<exists>out s'. on_cell_edit iter r c (Num n) s = (out, s') \<and> (out = Accepted \<or> out = Completed)
      \<and> board s' = set_cell (set_cell (board s) r c 0) r c n
      \<and> initial_board s' = initial_board s
      \<and> cell_colors s' = set_color (cell_colors s) r c (Some ByUser)
      \<and> current_turn s' = (if out = Completed then User else AI)
      \<and> pq s' = pq (update_neighbors iter r c
                       (s\<lparr>board := set_cell (set_cell (board s) r c 0) r c n\<rparr>))"
  by (simp add: on_cell_edit_def Let_def)

lemma nth_update_any: "xs[i := x] ! j = (if i = j \<and> i < length xs then x else xs ! j)"
  by (cases "i < length xs") (auto simp: nth_list_update list_update_beyond)

lemma wf_set_cell [simp]: "wf_board b \<Longrightarrow> wf_board (set_cell b r c v)"
  by (auto simp: wf_board_def set_cell_def list_all_length nth_update_any)

lemma nth_set_cell:
  "wf_board b \<Longrightarrow> r < 9 \<Longrightarrow> c < 9 \<Longrightarrow> i < 9 \<Longrightarrow> j < 9 \<Longrightarrow>
   set_cell b r c v ! i ! j = (if i = r \<and> j = c then v else b ! i ! j)"
  by (auto simp: set_cell_def wf_board_def list_all_length nth_update_any)

lemma set_cell_twice [simp]: "set_cell (set_cell b r c v) r c w = set_cell b r c w"
  by (cases "r < length b") (simp_all add: set_cell_def list_update_beyond)

lemma set_cell_same: "wf_board b \<Longrightarrow> r < 9 \<Longrightarrow> c < 9 \<Longrightarrow> set_cell b r c (b ! r ! c) = b"
  by (simp add: set_cell_def wf_board_def)


lemma demo_reset_pop:
  "heappop (pq (reset_board demo_user_moved)) = Some ((0, 0, 0, {}),
     [(0, 5, 0, {}), (0, 6, 0, {}), (4, 0, 2, {2, 5, 6, 8}),
      (2, 4, 0, {4, 6}), (0, 7, 0, {}), (4, 1, 2, {2, 5, 6, 8}),
      (4, 0, 6, {1, 2, 4, 7}), (3, 3, 0, {4, 6, 7}), (3, 0, 8, {1, 3, 6}),
      (0, 8, 0, {}), (5, 1, 1, {1, 4, 5, 7, 8}), (5, 0, 5, {1, 2, 4, 5, 7}),
      (4, 2, 0, {3, 4, 6, 7}), (5, 2, 1, {1, 4, 5, 7, 8}),
      (4, 2, 2, {2, 5, 6, 8}), (5, 0, 3, {2, 3, 5, 6, 8}),
      (4, 0, 4, {1, 3, 4, 6}), (4, 0, 7, {2, 3, 5, 8}),
      (4, 1, 0, {3, 4, 6, 7}), (5, 0, 1, {1, 4, 5, 7, 8})])"
  by code_simp

lemma demo_reset_board: "board (reset_board demo_user_moved) = demo_start"
  by (simp add: reset_board_def demo_user_moved_def)

lemma demo_start_candidates: "get_candidates demo_start 0 0 = {3, 4, 6, 7, 9}"
  by code_simp

lemma wf_demo_start: "wf_board demo_start"
  by code_simp

lemma demo_reset_ai_move:
  "ai_make_move iter choice (reset_board demo_user_moved) =
     (True, update_neighbors iter 0 0
        ((reset_board demo_user_moved)
           \<lparr>pq := [(0, 5, 0, {}), (0, 6, 0, {}), (4, 0, 2, {2, 5, 6, 8}),
      (2, 4, 0, {4, 6}), (0, 7, 0, {}), (4, 1, 2, {2, 5, 6, 8}),
      (4, 0, 6, {1, 2, 4, 7}), (3, 3, 0, {4, 6, 7}), (3, 0, 8, {1, 3, 6}),
      (0, 8, 0, {}), (5, 1, 1, {1, 4, 5, 7, 8}), (5, 0, 5, {1, 2, 4, 5, 7}),
      (4, 2, 0, {3, 4, 6, 7}), (5, 2, 1, {1, 4, 5, 7, 8}),
      (4, 2, 2, {2, 5, 6, 8}), (5, 0, 3, {2, 3, 5, 6, 8}),
      (4, 0, 4, {1, 3, 4, 6}), (4, 0, 7, {2, 3, 5, 8}),
      (4, 1, 0, {3, 4, 6, 7}), (5, 0, 1, {1, 4, 5, 7, 8})],
             board := set_cell demo_start 0 0 (choice {3, 4, 6, 7, 9}),
             cell_colors := set_color no_colors 0 0 (Some ByAI)\<rparr>))"
proof -
  have z: "board (reset_board demo_user_moved) ! 0 ! 0 = 0"
    unfolding demo_reset_board by code_simp
  have ne: "get_candidates (board (reset_board demo_user_moved)) 0 0 \<noteq> {}"
    unfolding demo_reset_board demo_start_candidates by simp
  show ?thesis
    unfolding ai_make_move_place[OF demo_reset_pop z ne, of iter choice]
    by (simp add: demo_reset_board demo_start_candidates) (simp add: reset_board_def)
qed

lemma session_ok_demo_reset: "session_ok (reset_board demo_user_moved)"
  by code_simp

lemma drop_stale_result:
  "set (drop_stale b q) \<subseteq> set q \<and>
   (drop_stale b q \<noteq> [] \<longrightarrow> (case drop_stale b q ! 0 of (n, r, c, cs) \<Rightarrow> b ! r ! c = 0))"
proof (induction "length q" arbitrary: q rule: less_induct)
  case less
  show ?case
  proof (cases q)
    case Nil
    have "drop_stale b [] = []" by (subst drop_stale.simps) simp
    then show ?thesis using Nil by simp
  next
    case (Cons e es)
    obtain n r c cs where e: "e = (n, r, c, cs)" by (cases e)
    show ?thesis
    proof (cases "b ! r ! c \<noteq> 0")
      case False
      then have "drop_stale b q = q" using Cons e by (subst drop_stale.simps) simp
      then show ?thesis using Cons e False by simp
    next
      case True
      obtain x rest where pop: "heappop q = Some (x, rest)"
        using Cons by (cases "heappop q") (auto simp: heappop_None)
      have eq: "drop_stale b q = drop_stale b rest"
        using Cons e True pop by (subst drop_stale.simps) simp
      have "set rest \<subseteq> set q" using set_heappop[OF pop] by auto
      then show ?thesis unfolding eq using less[OF length_heappop[OF pop]] by auto
    qed
  qed
qed

lemma session_ok_entry:
  "session_ok s \<Longrightarrow> (n, r, c, cs) \<in> set (pq s) \<Longrightarrow> r < 9 \<and> c < 9"
  by (auto simp: session_ok_def list_all_iff)


lemma finite_neighbours: "r < 9 \<Longrightarrow> c < 9 \<Longrightarrow> finite (neighbours r c)"
  using card_neighbours[of r c] by (metis card.infinite zero_neq_numeral)


lemma sorted_neighbours:
  "r < 9 \<Longrightarrow> c < 9 \<Longrightarrow> distinct (sorted_list_of_set (neighbours r c))
     \<and> set (sorted_list_of_set (neighbours r c)) = neighbours r c"
  by (simp add: finite_neighbours)


section \<open>Facts about stale entries\<close>

lemma heappop_head: "heappop q = Some (e, rest) \<Longrightarrow> e = q ! 0"
proof -
  assume a: "heappop q = Some (e, rest)"
  then have ne: "q \<noteq> []" by (auto simp: heappop_def)
  show ?thesis
  proof (cases "butlast q = []")
    case True
    then have "q = [last q]" using ne by (metis append_butlast_last_id append_Nil)
    then have "q ! 0 = last q" by (metis nth_Cons_0)
    then show ?thesis using a ne True by (simp add: heappop_def Let_def)
  next
    case False
    then have "0 < length (butlast q)" by (cases "butlast q") simp_all
    then have "butlast q ! 0 = q ! 0" by (rule nth_butlast)
    then show ?thesis using a ne False by (simp add: heappop_def Let_def)
  qed
qed

lemma drop_stale_live:
  "q \<noteq> [] \<Longrightarrow> (case q ! 0 of (n, r, c, cs) \<Rightarrow> b ! r ! c = 0) \<Longrightarrow> drop_stale b q = q"
  by (subst drop_stale.simps) (auto split: list.splits)

lemma drop_stale_Nil: "drop_stale b [] = []"
  by (subst drop_stale.simps) simp

lemma drop_stale_stale:
  "heappop q = Some ((n, r, c, cs), rest) \<Longrightarrow> b ! r ! c \<noteq> 0 \<Longrightarrow>
   drop_stale b q = drop_stale b rest"
proof -
  assume pop: "heappop q = Some ((n, r, c, cs), rest)" and st: "b ! r ! c \<noteq> 0"
  have ne: "q \<noteq> []" using pop by (auto simp: heappop_def)
  then obtain x xs where q: "q = x # xs" by (cases q) auto
  have "x = (n, r, c, cs)" using heappop_head[OF pop] q by simp
  then show ?thesis using q pop st by (subst drop_stale.simps) simp
qed

lemma drop_stale_mset:
  "\<exists>dropped. mset q = mset dropped + mset (drop_stale b q)
      \<and> (\<forall>e\<in>set dropped. case e of (n, r, c, cs) \<Rightarrow> b ! r ! c \<noteq> 0)"
proof (induction "length q" arbitrary: q rule: less_induct)
  case less
  show ?case
  proof (cases "q = []")
    case True
    then show ?thesis by (intro exI[of _ "[]"]) (simp add: drop_stale_Nil)
  next
    case False
    then obtain e rest where pop: "heappop q = Some (e, rest)"
      by (cases "heappop q") (auto simp: heappop_None)
    obtain n r c cs where e: "e = (n, r, c, cs)" by (cases e)
    have hd: "q ! 0 = (n, r, c, cs)" using heappop_head[OF pop] e by simp
    show ?thesis
    proof (cases "b ! r ! c = 0")
      case True
      then have "drop_stale b q = q" using False hd by (intro drop_stale_live) simp_all
      then show ?thesis by (intro exI[of _ "[]"]) simp
    next
      case stale: False
      have eq: "drop_stale b q = drop_stale b rest"
        using drop_stale_stale[OF pop[unfolded e] stale] .
      obtain dropped where d: "mset rest = mset dropped + mset (drop_stale b rest)"
          "\<forall>e\<in>set dropped. case e of (n, r, c, cs) \<Rightarrow> b ! r ! c \<noteq> 0"
        using less[OF length_heappop[OF pop]] by blast
      have "mset q = mset (e # dropped) + mset (drop_stale b q)"
        using mset_heappop[OF pop] d(1) eq by simp
      moreover have "\<forall>e\<in>set (e # dropped). case e of (n, r, c, cs) \<Rightarrow> b ! r ! c \<noteq> 0"
        using d(2) stale e by simp
      ultimately show ?thesis by blast
    qed
  qed
qed

lemma pq_update_same: "pq s = q \<Longrightarrow> s\<lparr>pq := q\<rparr> = s"
  by (cases s) simp

lemma ai_make_move_drop_stale:
  "ai_make_move iter choice s = ai_make_move iter choice (s\<lparr>pq := drop_stale (board s) (pq s)\<rparr>)"
proof (induction "length (pq s)" arbitrary: s rule: less_induct)
  case less
  show ?case
  proof (cases "pq s = []")
    case True
    then show ?thesis by (simp add: drop_stale_Nil pq_update_same)
  next
    case False
    then obtain e rest where pop: "heappop (pq s) = Some (e, rest)"
      by (cases "heappop (pq s)") (auto simp: heappop_None)
    obtain n r c cs where e: "e = (n, r, c, cs)" by (cases e)
    have hd: "pq s ! 0 = (n, r, c, cs)" using heappop_head[OF pop] e by simp
    show ?thesis
    proof (cases "board s ! r ! c = 0")
      case True
      then have "drop_stale (board s) (pq s) = pq s" using False hd by (intro drop_stale_live) simp_all
      then show ?thesis by (simp add: pq_update_same)
    next
      case stale: False
      have eq: "drop_stale (board s) (pq s) = drop_stale (board s) rest"
        using drop_stale_stale[OF pop[unfolded e] stale] .
      have "ai_make_move iter choice s = ai_make_move iter choice (s\<lparr>pq := rest\<rparr>)"
        using ai_make_move_stale[OF pop[unfolded e] stale] .
      also have "\<dots> = ai_make_move iter choice (s\<lparr>pq := rest\<rparr>\<lparr>pq := drop_stale (board (s\<lparr>pq := rest\<rparr>)) (pq (s\<lparr>pq := rest\<rparr>))\<rparr>)"
        using less[of "s\<lparr>pq := rest\<rparr>"] length_heappop[OF pop] by simp
      finally show ?thesis by (simp add: eq)
    qed
  qed
qed

lemma demo_drop_stale:
  "drop_stale (board demo_user_moved) (pq demo_user_moved) = demo_live_queue"
  by code_simp

lemma demo_live_pop: "heappop demo_live_queue = Some ((2, 4, 0, {4, 6}), demo_rest_queue)"
  by code_simp

lemma demo_moved_candidates: "get_candidates (board demo_user_moved) 4 0 = {4, 6}"
  by code_simp

lemma drop_stale_cases:
  assumes "session_ok s"
  shows "case drop_stale (board s) (pq s) of
       [] \<Rightarrow> ai_make_move iter choice s = (False, s\<lparr>pq := []\<rparr>)
               \<and> show_hint s = (None, s\<lparr>pq := []\<rparr>)
     | e # es \<Rightarrow> e \<in> set (pq s) \<and> \<not> stale (board s) e \<and>
         (case e of (n, r, c, cs) \<Rightarrow> r < 9 \<and> c < 9 \<and>
            (\<exists>rest. heappop (e # es) = Some (e, rest) \<and>
               ai_make_move iter choice s =
                 (if get_candidates (board s) r c = {} then (False, s\<lparr>pq := rest\<rparr>)
                  else (True, update_neighbors iter r c
                          (s\<lparr>pq := rest,
                             board := set_cell (board s) r c (choice (get_candidates (board s) r c)),
                             cell_colors := set_color (cell_colors s) r c (Some ByAI)\<rparr>)))) \<and>
            show_hint s = (Some (r, c, get_candidates (board s) r c), s\<lparr>pq := e # es\<rparr>))"
proof (cases "drop_stale (board s) (pq s)")
  case Nil
  have "ai_make_move iter choice s = ai_make_move iter choice (s\<lparr>pq := []\<rparr>)"
    using ai_make_move_drop_stale[of iter choice s] Nil by simp
  then have a: "ai_make_move iter choice s = (False, s\<lparr>pq := []\<rparr>)"
    by (simp add: ai_make_move_None)
  have "show_hint s = (None, s\<lparr>pq := []\<rparr>)"
    by (cases "pq s = []") (simp_all add: show_hint_def Let_def Nil pq_update_same)
  then show ?thesis using a Nil by simp
next
  case (Cons e es)
  define q where "q = drop_stale (board s) (pq s)"
  have q: "q = e # es" using Cons by (simp add: q_def)
  obtain n r c cs where e: "e = (n, r, c, cs)" by (cases e)
  have live: "board s ! r ! c = 0"
    using drop_stale_result[of "board s" "pq s"] Cons e by simp
  have mem: "e \<in> set (pq s)"
    using drop_stale_result[of "board s" "pq s"] Cons by auto
  have rc: "r < 9" "c < 9" using session_ok_entry[OF assms mem[unfolded e]] by simp_all
  obtain x rest where pop0: "heappop (e # es) = Some (x, rest)"
    by (cases "heappop (e # es)") (auto simp: heappop_None)
  have "x = e" using heappop_head[OF pop0] by simp
  then have pop: "heappop (pq (s\<lparr>pq := e # es\<rparr>)) = Some ((n, r, c, cs), rest)"
    using pop0 e by simp
  have live': "board (s\<lparr>pq := e # es\<rparr>) ! r ! c = 0" using live by simp
  have ai0: "ai_make_move iter choice s = ai_make_move iter choice (s\<lparr>pq := e # es\<rparr>)"
    using ai_make_move_drop_stale[of iter choice s] Cons by simp
  have ai: "ai_make_move iter choice s =
                 (if get_candidates (board s) r c = {} then (False, s\<lparr>pq := rest\<rparr>)
                  else (True, update_neighbors iter r c
                          (s\<lparr>pq := rest,
                             board := set_cell (board s) r c (choice (get_candidates (board s) r c)),
                             cell_colors := set_color (cell_colors s) r c (Some ByAI)\<rparr>)))"
  proof (cases "get_candidates (board s) r c = {}")
    case True
    then show ?thesis
      unfolding ai0 using ai_make_move_dead[OF pop live', of iter choice] by simp
  next
    case False
    then show ?thesis
      unfolding ai0 using ai_make_move_place[OF pop live', of iter choice] by simp
  qed
  have ne: "pq s \<noteq> []" using mem by auto
  have hint: "show_hint s = (Some (r, c, get_candidates (board s) r c), s\<lparr>pq := e # es\<rparr>)"
    using ne Cons e by (simp add: show_hint_def Let_def)
  have "\<not> stale (board s) e" using live e by (simp add: stale_def)
  then show ?thesis
    unfolding Cons list.case e prod.case
    using mem rc pop0 \<open>x = e\<close> ai hint e by blast
qed

lemma give_up_only_when_justified:
  assumes "session_ok s"
  shows "(\<not> fst (ai_make_move iter choice s) \<longrightarrow>
            (\<forall>e\<in>set (pq s). stale (board s) e) \<or>
            (\<exists>e\<in>set (pq s). case e of (n, r, c, cs) \<Rightarrow>
                board s ! r ! c = 0 \<and> get_candidates (board s) r c = {}))
       \<and> (fst (show_hint s) = None \<longleftrightarrow> (\<forall>e\<in>set (pq s). stale (board s) e))"
proof (cases "drop_stale (board s) (pq s)")
  case Nil
  obtain dropped where d: "mset (pq s) = mset dropped + mset (drop_stale (board s) (pq s))"
      "\<forall>e\<in>set dropped. case e of (n, r, c, cs) \<Rightarrow> board s ! r ! c \<noteq> 0"
    using drop_stale_mset[of "pq s" "board s"] by blast
  have "set (pq s) = set dropped" using d(1) Nil by (metis add.right_neutral mset.simps(1) set_mset_mset)
  then have all: "\<forall>e\<in>set (pq s). stale (board s) e" using d(2) by (simp add: stale_def)
  have "show_hint s = (None, s\<lparr>pq := []\<rparr>)"
    using drop_stale_cases[OF assms, of iter choice] Nil by simp
  then show ?thesis using all by simp
next
  case (Cons e es)
  obtain n r c cs where e: "e = (n, r, c, cs)" by (cases e)
  note c = drop_stale_cases[OF assms, of iter choice, unfolded Cons list.case e prod.case]
  have mem: "(n, r, c, cs) \<in> set (pq s)" and live: "\<not> stale (board s) (n, r, c, cs)"
    using c by blast+
  have z: "board s ! r ! c = 0" using live by (simp add: stale_def)
  have h: "fst (show_hint s) \<noteq> None" using c by auto
  have "\<not> fst (ai_make_move iter choice s) \<longrightarrow> get_candidates (board s) r c = {}"
    using c by (auto split: if_splits)
  then have "\<not> fst (ai_make_move iter choice s) \<longrightarrow>
      (\<exists>e\<in>set (pq s). case e of (n, r, c, cs) \<Rightarrow>
                board s ! r ! c = 0 \<and> get_candidates (board s) r c = {})"
    using mem z by (intro impI bexI[of _ "(n, r, c, cs)"]) simp_all
  moreover have "\<not> (\<forall>e\<in>set (pq s). stale (board s) e)" using mem live by blast
  ultimately show ?thesis using h by blast
qed

lemma selected_cell_was_empty:
  assumes "session_ok s"
  shows "(case ai_make_move iter choice s of
            (ok, s') \<Rightarrow>
              (if ok
               then \<exists>n r c cs. (n, r, c, cs) \<in> set (pq s) \<and> r < 9 \<and> c < 9 \<and>
                      board s ! r ! c = 0 \<and>
                      board s' = set_cell (board s) r c (choice (get_candidates (board s) r c))
               else board s' = board s) \<and>
              (\<forall>i<9. \<forall>j<9. board s ! i ! j \<noteq> 0 \<longrightarrow> board s' ! i ! j = board s ! i ! j)) \<and>
         (case show_hint s of
            (None, s') \<Rightarrow> board s' = board s
          | (Some (r, c, cs), s') \<Rightarrow>
              board s' = board s \<and> r < 9 \<and> c < 9 \<and> board s ! r ! c = 0 \<and>
              cs = get_candidates (board s) r c \<and> (\<exists>n cs'. (n, r, c, cs') \<in> set (pq s)))"
proof -
  obtain ok s' where r: "ai_make_move iter choice s = (ok, s')"
    by (cases "ai_make_move iter choice s")
  have wf: "wf_board (board s)" using assms by (simp add: session_ok_def)
  have ai: "(if ok
               then \<exists>n r c cs. (n, r, c, cs) \<in> set (pq s) \<and> r < 9 \<and> c < 9 \<and>
                      board s ! r ! c = 0 \<and>
                      board s' = set_cell (board s) r c (choice (get_candidates (board s) r c))
               else board s' = board s) \<and>
              (\<forall>i<9. \<forall>j<9. board s ! i ! j \<noteq> 0 \<longrightarrow> board s' ! i ! j = board s ! i ! j)"
  proof (cases ok)
    case False
    then show ?thesis using ai_make_move_result[OF r] by simp
  next
    case True
    then have "\<exists>n r c cs. (n, r, c, cs) \<in> set (pq s) \<and> board s ! r ! c = 0
              \<and> get_candidates (board s) r c \<noteq> {}
              \<and> board s' = set_cell (board s) r c (choice (get_candidates (board s) r c))"
      using ai_make_move_result[OF r] by simp
    then obtain n r c cs where w: "(n, r, c, cs) \<in> set (pq s)" "board s ! r ! c = 0"
      "board s' = set_cell (board s) r c (choice (get_candidates (board s) r c))"
      by blast
    have rc: "r < 9" "c < 9" using session_ok_entry[OF assms w(1)] by simp_all
    have "\<exists>n r c cs. (n, r, c, cs) \<in> set (pq s) \<and> r < 9 \<and> c < 9 \<and>
                      board s ! r ! c = 0 \<and>
                      board s' = set_cell (board s) r c (choice (get_candidates (board s) r c))"
      using w rc by blast
    moreover have "\<forall>i<9. \<forall>j<9. board s ! i ! j \<noteq> 0 \<longrightarrow> board s' ! i ! j = board s ! i ! j"
      using w(2) by (auto simp: w(3) nth_set_cell[OF wf rc])
    ultimately show ?thesis using True by simp
  qed
  have hint: "(case show_hint s of
            (None, s') \<Rightarrow> board s' = board s
          | (Some (r, c, cs), s') \<Rightarrow>
              board s' = board s \<and> r < 9 \<and> c < 9 \<and> board s ! r ! c = 0 \<and>
              cs = get_candidates (board s) r c \<and> (\<exists>n cs'. (n, r, c, cs') \<in> set (pq s)))"
  proof (cases "pq s = [] \<or> drop_stale (board s) (pq s) = []")
    case True
    then show ?thesis by (auto simp: show_hint_def Let_def)
  next
    case False
    define q where "q = drop_stale (board s) (pq s)"
    obtain n r c cs' where hd: "q ! 0 = (n, r, c, cs')" by (cases "q ! 0")
    have ne: "q \<noteq> []" using False by (simp add: q_def)
    have sub: "set q \<subseteq> set (pq s)"
      using drop_stale_result[of "board s" "pq s"] by (simp add: q_def)
    have live: "board s ! r ! c = 0"
      using drop_stale_result[of "board s" "pq s"] ne hd by (simp add: q_def)
    have "q ! 0 \<in> set q" using ne by (intro nth_mem) simp
    then have mem: "(n, r, c, cs') \<in> set (pq s)" using sub hd by auto
    have rc: "r < 9" "c < 9" using session_ok_entry[OF assms mem] by simp_all
    have "show_hint s = (Some (r, c, get_candidates (board s) r c), s\<lparr>pq := q\<rparr>)"
      using False hd by (simp add: show_hint_def Let_def q_def)
    then show ?thesis using live mem rc by auto
  qed
  show ?thesis unfolding r prod.case by (rule conjI[OF ai hint])
qed

lemma demo_ai_move:
  "ai_make_move sorted_list_of_set Min demo_user_moved
       = (True, update_neighbors sorted_list_of_set 4 0
            (demo_user_moved\<lparr>pq := demo_rest_queue,
               board := set_cell (board demo_user_moved) 4 0 4,
               cell_colors := set_color (cell_colors demo_user_moved) 4 0 (Some ByAI)\<rparr>))"
proof -
  have pop: "heappop (pq (demo_user_moved\<lparr>pq := demo_live_queue\<rparr>))
      = Some ((2, 4, 0, {4, 6}), demo_rest_queue)"
    using demo_live_pop by simp
  have z: "board (demo_user_moved\<lparr>pq := demo_live_queue\<rparr>) ! 4 ! 0 = 0" by code_simp
  have ne: "get_candidates (board (demo_user_moved\<lparr>pq := demo_live_queue\<rparr>)) 4 0 \<noteq> {}"
    by (simp add: demo_moved_candidates)
  have "ai_make_move sorted_list_of_set Min demo_user_moved
      = ai_make_move sorted_list_of_set Min (demo_user_moved\<lparr>pq := demo_live_queue\<rparr>)"
    using ai_make_move_drop_stale[of sorted_list_of_set Min demo_user_moved]
    by (simp add: demo_drop_stale)
  then show ?thesis
    unfolding ai_make_move_place[OF pop z ne, of sorted_list_of_set Min]
    by (simp add: demo_moved_candidates)
qed

lemma demo_played_fields:
  "board demo_played = set_cell (set_cell demo_start 0 0 9) 4 0 4"
  "initial_board demo_played = demo_start"
  "current_turn demo_played = User"
  "cell_colors demo_played = set_color (set_color no_colors 0 0 (Some ByUser)) 4 0 (Some ByAI)"
proof -
  define s1 where "s1 = update_neighbors sorted_list_of_set 4 0
            (demo_user_moved\<lparr>pq := demo_rest_queue,
               board := set_cell (board demo_user_moved) 4 0 4,
               cell_colors := set_color (cell_colors demo_user_moved) 4 0 (Some ByAI)\<rparr>)"
  have b: "board s1 = set_cell (set_cell demo_start 0 0 9) 4 0 4"
    by (simp add: s1_def demo_user_moved_def)
  have "board s1 ! 0 ! 1 = 0" unfolding b by code_simp
  then have "\<exists>i\<in>{0..<9::nat}. \<exists>j\<in>{0..<9::nat}. board s1 ! i ! j = 0"
    by (intro bexI[where x = 0] bexI[where x = 1]) simp_all
  then have "\<not> is_complete s1"
    unfolding is_complete_def list_ex_iff by (simp del: upt_Suc)
  then have dp: "demo_played = s1\<lparr>current_turn := User\<rparr>"
    by (simp add: demo_played_def ai_turn_def demo_ai_move flip: s1_def)
  show "board demo_played = set_cell (set_cell demo_start 0 0 9) 4 0 4"
    unfolding dp using b by simp
  show "initial_board demo_played = demo_start"
    unfolding dp by (simp add: s1_def demo_user_moved_def)
  show "current_turn demo_played = User"
    unfolding dp by simp
  show "cell_colors demo_played = set_color (set_color no_colors 0 0 (Some ByUser)) 4 0 (Some ByAI)"
    unfolding dp by (simp add: s1_def demo_user_moved_def)
qed

lemma demo_played_cells:
  "wf_board (board demo_played)" "board demo_played ! 0 ! 0 = 9"
  "initial_board demo_played ! 0 ! 0 = 0" "cell_colors demo_played ! 0 ! 0 = Some ByUser"
  "board demo_played ! 4 ! 0 = 4" "set_cell (board demo_played) 0 0 0 ! 0 ! 0 = 0"
  "set_cell (board demo_played) 0 0 0 ! 4 ! 0 = 4"
  unfolding demo_played_fields by code_simp+


section \<open>Facts about the validity invariant\<close>

lemma nodup_map:
  assumes "distinct xs"
  shows "nodup (map f xs) \<longleftrightarrow> (\<forall>x\<in>set xs. \<forall>y\<in>set xs. f x \<noteq> 0 \<longrightarrow> f x = f y \<longrightarrow> x = y)"
proof -
  have "filter (\<lambda>v. v \<noteq> 0) (map f xs) = map f (filter (\<lambda>x. f x \<noteq> 0) xs)"
    by (simp add: filter_map comp_def)
  then have "nodup (map f xs) \<longleftrightarrow> inj_on f {x \<in> set xs. f x \<noteq> 0}"
    using assms by (simp add: nodup_def distinct_map)
  also have "\<dots> \<longleftrightarrow> (\<forall>x\<in>set xs. \<forall>y\<in>set xs. f x \<noteq> 0 \<longrightarrow> f x = f y \<longrightarrow> x = y)"
    by (auto simp: inj_on_def)
  finally show ?thesis .
qed

lemma row_as_map: "wf_board b \<Longrightarrow> r < 9 \<Longrightarrow> b ! r = map (\<lambda>c. b ! r ! c) [0..<9]"
  using map_nth[of "b ! r"] by (simp add: wf_board_row)

lemma nodup_row:
  assumes "wf_board b" and "r < 9"
  shows "nodup (b ! r) \<longleftrightarrow> (\<forall>c1<9. \<forall>c2<9. b ! r ! c1 \<noteq> 0 \<longrightarrow> b ! r ! c1 = b ! r ! c2 \<longrightarrow> c1 = c2)"
proof -
  have "nodup (b ! r) = nodup (map (\<lambda>c. b ! r ! c) [0..<9])"
    using row_as_map[OF assms] by simp
  then show ?thesis by (auto simp add: nodup_map simp del: upt_Suc)
qed

lemma nodup_column:
  "nodup (column b c) \<longleftrightarrow> (\<forall>r1<9. \<forall>r2<9. b ! r1 ! c \<noteq> 0 \<longrightarrow> b ! r1 ! c = b ! r2 ! c \<longrightarrow> r1 = r2)"
  unfolding column_def by (auto simp add: nodup_map simp del: upt_Suc)

lemma nodup_box:
  assumes "r < 9" and "c < 9"
  shows "nodup (box b r c) \<longleftrightarrow>
     (\<forall>r1<9. \<forall>c1<9. \<forall>r2<9. \<forall>c2<9.
        r1 div 3 = r div 3 \<longrightarrow> c1 div 3 = c div 3 \<longrightarrow> r2 div 3 = r div 3 \<longrightarrow> c2 div 3 = c div 3 \<longrightarrow>
        b ! r1 ! c1 \<noteq> 0 \<longrightarrow> b ! r1 ! c1 = b ! r2 ! c2 \<longrightarrow> r1 = r2 \<and> c1 = c2)"
proof -
  have d: "distinct (List.product [3 * (r div 3)..<3 * (r div 3) + 3] [3 * (c div 3)..<3 * (c div 3) + 3])"
    by (simp add: distinct_product del: upt_Suc)
  show ?thesis
    unfolding box_conv nodup_map[OF d] set_box_cells[OF assms]
    by (simp add: split_paired_all) blast
qed

lemma box_origin: "box b (3 * (r div 3)) (3 * (c div 3)) = box b r c"
  by (simp add: box_def)

lemma valid_board_conv:
  "valid_board b \<longleftrightarrow>
     (\<forall>r<9. nodup (b ! r)) \<and> (\<forall>c<9. nodup (column b c)) \<and> (\<forall>r<9. \<forall>c<9. nodup (box b r c))"
proof -
  have o: "3 * (r div 3) \<in> set [0, 3, 6]" if "r < 9" for r :: nat
  proof -
    have "3 * (r div 3) = 0 \<or> 3 * (r div 3) = 3 \<or> 3 * (r div 3) = 6" using that by arith
    then show ?thesis by auto
  qed
  have "(\<forall>r\<in>set [0, 3, 6]. \<forall>c\<in>set [0, 3, 6]. nodup (box b r c))
        \<longleftrightarrow> (\<forall>r<9. \<forall>c<9. nodup (box b r c))" (is "?L \<longleftrightarrow> ?R")
  proof
    assume ?L
    show ?R
    proof (intro allI impI)
      fix r c :: nat assume "r < 9" "c < 9"
      then have "3 * (r div 3) \<in> set [0, 3, 6]" "3 * (c div 3) \<in> set [0, 3, 6]"
        by (simp_all only: o)
      with \<open>?L\<close> have "nodup (box b (3 * (r div 3)) (3 * (c div 3)))" by blast
      then show "nodup (box b r c)" by (simp add: box_origin)
    qed
  next
    assume ?R then show ?L by simp
  qed
  then show ?thesis
    unfolding valid_board_def by (auto simp add: list_all_iff simp del: upt_Suc set_simps)
qed

lemma valid_board_iff:
  assumes "wf_board b"
  shows "valid_board b \<longleftrightarrow> conflict_free b"
proof
  assume v: "valid_board b"
  show "conflict_free b"
    unfolding conflict_free_def
  proof (intro allI impI)
    fix r1 c1 r2 c2
    assume b: "r1 < 9" "c1 < 9" "r2 < 9" "c2 < 9"
      and nz: "b ! r1 ! c1 \<noteq> 0" and eq: "b ! r1 ! c1 = b ! r2 ! c2"
      and p: "r1 = r2 \<or> c1 = c2 \<or> (r1 div 3 = r2 div 3 \<and> c1 div 3 = c2 div 3)"
    have R: "nodup (b ! r1)" and C: "nodup (column b c1)" and B: "nodup (box b r1 c1)"
      using v b unfolding valid_board_conv by simp_all
    from p show "r1 = r2 \<and> c1 = c2"
    proof (elim disjE)
      assume "r1 = r2"
      then show ?thesis using R nz eq b unfolding nodup_row[OF assms b(1)] by blast
    next
      assume "c1 = c2"
      then show ?thesis using C nz eq b unfolding nodup_column by blast
    next
      assume "r1 div 3 = r2 div 3 \<and> c1 div 3 = c2 div 3"
      then show ?thesis using B nz eq b unfolding nodup_box[OF b(1,2)] by metis
    qed
  qed
next
  assume cf: "conflict_free b"
  have "nodup (b ! r)" if "r < 9" for r
    unfolding nodup_row[OF assms that] using cf that unfolding conflict_free_def by blast
  moreover have "nodup (column b c)" if "c < 9" for c
    unfolding nodup_column using cf that unfolding conflict_free_def by blast
  moreover have "nodup (box b r c)" if "r < 9" "c < 9" for r c
    unfolding nodup_box[OF that] using cf unfolding conflict_free_def by metis
  ultimately show "valid_board b" unfolding valid_board_conv by simp
qed

lemma is_valid_digits:
  assumes "wf_board b" and "r < 9" and "c < 9"
  shows "is_valid b r c v \<longleftrightarrow>
     (\<forall>j<9. b ! r ! j \<noteq> v) \<and> (\<forall>i<9. b ! i ! c \<noteq> v) \<and>
     (\<forall>i<9. \<forall>j<9. i div 3 = r div 3 \<longrightarrow> j div 3 = c div 3 \<longrightarrow> b ! i ! j \<noteq> v)"
  unfolding is_valid_conv set_row_digits[OF assms(1,2)] set_column set_box[OF assms(2,3)]
  by (auto simp: row_digits_def col_digits_def box_digits_def)

lemma candidate_is_valid:
  assumes "wf_board b" and "r < 9" and "c < 9" and "v \<in> get_candidates b r c"
  shows "is_valid b r c v \<and> 1 \<le> v \<and> v \<le> 9 \<and> b ! r ! c = 0"
  using assms(4) unfolding get_candidates_conv is_valid_conv by (auto split: if_splits)

lemma finite_candidates: "finite (get_candidates b r c)"
  unfolding get_candidates_conv by simp

lemma conflict_free_clear:
  assumes "wf_board b" and "r < 9" and "c < 9" and "conflict_free b"
  shows "conflict_free (set_cell b r c 0)"
  unfolding conflict_free_def
proof (intro allI impI)
  fix r1 c1 r2 c2
  assume b: "r1 < 9" "c1 < 9" "r2 < 9" "c2 < 9"
    and nz: "set_cell b r c 0 ! r1 ! c1 \<noteq> 0"
    and eq: "set_cell b r c 0 ! r1 ! c1 = set_cell b r c 0 ! r2 ! c2"
    and p: "r1 = r2 \<or> c1 = c2 \<or> (r1 div 3 = r2 div 3 \<and> c1 div 3 = c2 div 3)"
  have n1: "set_cell b r c 0 ! r1 ! c1 = (if r1 = r \<and> c1 = c then 0 else b ! r1 ! c1)"
    by (rule nth_set_cell[OF assms(1-3) b(1,2)])
  have n2: "set_cell b r c 0 ! r2 ! c2 = (if r2 = r \<and> c2 = c then 0 else b ! r2 ! c2)"
    by (rule nth_set_cell[OF assms(1-3) b(3,4)])
  have 1: "set_cell b r c 0 ! r1 ! c1 = b ! r1 ! c1"
    using nz unfolding n1 by auto
  have 2: "set_cell b r c 0 ! r2 ! c2 = b ! r2 ! c2"
    using nz eq unfolding n1 n2 by auto
  show "r1 = r2 \<and> c1 = c2"
    using assms(4) b nz eq p unfolding 1 2 conflict_free_def by blast
qed

lemma conflict_free_place:
  assumes "wf_board b" and "r < 9" and "c < 9" and "conflict_free b"
    and "is_valid b r c v"
  shows "conflict_free (set_cell b r c v)"
  unfolding conflict_free_def
proof (intro allI impI)
  fix r1 c1 r2 c2
  assume b: "r1 < 9" "c1 < 9" "r2 < 9" "c2 < 9"
    and nz: "set_cell b r c v ! r1 ! c1 \<noteq> 0"
    and eq: "set_cell b r c v ! r1 ! c1 = set_cell b r c v ! r2 ! c2"
    and p: "r1 = r2 \<or> c1 = c2 \<or> (r1 div 3 = r2 div 3 \<and> c1 div 3 = c2 div 3)"
  note iv = assms(5)[unfolded is_valid_digits[OF assms(1-3)]]
  have n1: "set_cell b r c v ! r1 ! c1 = (if r1 = r \<and> c1 = c then v else b ! r1 ! c1)"
    by (rule nth_set_cell[OF assms(1-3) b(1,2)])
  have n2: "set_cell b r c v ! r2 ! c2 = (if r2 = r \<and> c2 = c then v else b ! r2 ! c2)"
    by (rule nth_set_cell[OF assms(1-3) b(3,4)])
  show "r1 = r2 \<and> c1 = c2"
  proof (cases "r1 = r \<and> c1 = c")
    case True
    show ?thesis
    proof (cases "r2 = r \<and> c2 = c")
      case True
      with \<open>r1 = r \<and> c1 = c\<close> show ?thesis by simp
    next
      case False
      have "b ! r2 ! c2 = v" using eq True False unfolding n1 n2 by auto
      then show ?thesis using iv p True b by metis
    qed
  next
    case False
    show ?thesis
    proof (cases "r2 = r \<and> c2 = c")
      case True
      have "b ! r1 ! c1 = v" using eq False True unfolding n1 n2 by auto
      then show ?thesis using iv p True b by metis
    next
      case F2: False
      have "b ! r1 ! c1 \<noteq> 0" "b ! r1 ! c1 = b ! r2 ! c2"
        using nz eq False F2 unfolding n1 n2 by simp_all
      then show ?thesis using assms(4) b p unfolding conflict_free_def by blast
    qed
  qed
qed

lemma valid_clear:
  "wf_board b \<Longrightarrow> r < 9 \<Longrightarrow> c < 9 \<Longrightarrow> valid_board b \<Longrightarrow> valid_board (set_cell b r c 0)"
  by (simp add: valid_board_iff conflict_free_clear)

lemma valid_place:
  "wf_board b \<Longrightarrow> r < 9 \<Longrightarrow> c < 9 \<Longrightarrow> valid_board b \<Longrightarrow> is_valid b r c v \<Longrightarrow>
   valid_board (set_cell b r c v)"
  by (simp add: valid_board_iff conflict_free_place)

lemma no_peer_conflict:
  assumes "wf_board b" and "valid_board b" and "r < 9" and "c < 9" and "b ! r ! c \<noteq> 0"
  shows "\<forall>i<9. \<forall>j<9. (i = r \<or> j = c \<or> (i div 3 = r div 3 \<and> j div 3 = c div 3)) \<longrightarrow>
           (i, j) \<noteq> (r, c) \<longrightarrow> b ! i ! j \<noteq> b ! r ! c"
proof -
  have "conflict_free b" using assms(1,2) by (simp add: valid_board_iff)
  then show ?thesis using assms(3-5) unfolding conflict_free_def by (metis prod.inject)
qed

lemma board_ai_turn: "board (ai_turn iter choice s) = board (snd (ai_make_move iter choice s))"
  by (cases "ai_make_move iter choice s") (simp add: ai_turn_def)

lemma on_cell_edit_cases:
  assumes "wf_board (board s)" and "r < 9" and "c < 9"
  shows "(\<exists>out s'. on_cell_edit iter r c text s = (out, s') \<and> out \<noteq> Accepted \<and> out \<noteq> Completed
             \<and> (board s' = board s \<or> board s' = set_cell (board s) r c 0))
       \<or> (\<exists>out s' n. on_cell_edit iter r c text s = (out, s') \<and> (out = Accepted \<or> out = Completed)
             \<and> text = Num n \<and> 1 \<le> n \<and> n \<le> 9 \<and> current_turn s = User
             \<and> initial_board s ! r ! c = 0
             \<and> is_valid (set_cell (board s) r c 0) r c n
             \<and> board s' = set_cell (board s) r c n)"
proof (cases "current_turn s \<noteq> User \<or> initial_board s ! r ! c \<noteq> 0")
  case True
  then show ?thesis using on_cell_edit_ignored[OF True, of iter "text"] by simp
next
  case False
  then have t: "current_turn s = User" "initial_board s ! r ! c = 0" by simp_all
  show ?thesis
  proof (cases "text")
    case Blank
    then show ?thesis using on_cell_edit_blank[OF t, of iter] by simp
  next
    case NotInt
    then show ?thesis using on_cell_edit_bad[OF t, of "text" iter] by simp
  next
    case (Num n)
    show ?thesis
    proof (cases "n < 1 \<or> 9 < n")
      case True
      then show ?thesis using on_cell_edit_bad[OF t, of "text" iter] Num by simp
    next
      case False
      then have n: "1 \<le> n" "n \<le> 9" by simp_all
      show ?thesis
      proof (cases "is_valid (set_cell (board s) r c 0) r c n")
        case True
        obtain out s' where o: "on_cell_edit iter r c (Num n) s = (out, s')"
            "out = Accepted \<or> out = Completed"
            "board s' = set_cell (set_cell (board s) r c 0) r c n"
          using on_cell_edit_valid[OF t n True, of iter] by blast
        then show ?thesis using Num n t True by simp
      next
        case False
        have "set_cell (set_cell (board s) r c 0) r c (board s ! r ! c) = board s"
          using set_cell_same[OF assms] by simp
        then show ?thesis using on_cell_edit_invalid[OF t n False, of iter] Num by simp
      qed
    qed
  qed
qed

lemma peers_differ:
  assumes "wf_board b" and "valid_board b" and "r < 9" and "c < 9" and "is_valid b r c v"
  shows "\<forall>i<9. \<forall>j<9. (i = r \<or> j = c \<or> (i div 3 = r div 3 \<and> j div 3 = c div 3)) \<longrightarrow>
           (i, j) \<noteq> (r, c) \<longrightarrow> set_cell b r c v ! i ! j \<noteq> v"
proof (intro allI impI)
  fix i j assume ij: "i < 9" "j < 9"
    and p: "i = r \<or> j = c \<or> (i div 3 = r div 3 \<and> j div 3 = c div 3)" and ne: "(i, j) \<noteq> (r, c)"
  note iv = assms(5)[unfolded is_valid_digits[OF assms(1,3,4)]]
  have "set_cell b r c v ! i ! j = b ! i ! j"
    using ne unfolding nth_set_cell[OF assms(1,3,4) ij] by auto
  moreover have "b ! i ! j \<noteq> v" using iv p ij by blast
  ultimately show "set_cell b r c v ! i ! j \<noteq> v" by simp
qed


section \<open>The validator and the candidate calculator agree\<close>

text \<open>
  C6. On an empty cell the candidate calculator returns the digits one to nine without
  those of the row, the column and the box, and the move validator accepts a digit from
  one to nine exactly when it is in that set.
\<close>

theorem is_valid_iff_candidate:
  assumes "wf_board b" and "r < 9" and "c < 9" and "b ! r ! c = 0"
  shows "get_candidates b r c = candidates_spec b r c
       \<and> get_candidates b r c
           = {d. 1 \<le> d \<and> d \<le> 9} - row_digits b r - col_digits b c - box_digits b r c
       \<and> (\<forall>d. 1 \<le> d \<and> d \<le> 9 \<longrightarrow> (is_valid b r c d \<longleftrightarrow> d \<in> get_candidates b r c))"
proof -
  have eq: "get_candidates b r c
           = {d. 1 \<le> d \<and> d \<le> 9} - row_digits b r - col_digits b c - box_digits b r c"
    using assms by (auto simp: get_candidates_conv set_row_digits set_column set_box)
  have "get_candidates b r c = candidates_spec b r c"
    using assms(4) eq by (simp add: candidates_spec_def)
  moreover have "\<forall>d. 1 \<le> d \<and> d \<le> 9 \<longrightarrow> (is_valid b r c d \<longleftrightarrow> d \<in> get_candidates b r c)"
    using assms by (auto simp: eq is_valid_conv set_row_digits set_column set_box)
  ultimately show ?thesis using eq by blast
qed

theorem is_valid_iff_candidate_witness:
  "wf_board demo_puzzle \<and> demo_puzzle ! 0 ! 2 = 0
   \<and> get_candidates demo_puzzle 0 2 = candidates_spec demo_puzzle 0 2
   \<and> (is_valid demo_puzzle 0 2 3 \<longleftrightarrow> 3 \<in> get_candidates demo_puzzle 0 2)
   \<and> (is_valid demo_puzzle 0 2 4 \<longleftrightarrow> 4 \<in> get_candidates demo_puzzle 0 2)"
proof -
  have wf: "wf_board demo_puzzle" by code_simp
  have z: "demo_puzzle ! 0 ! 2 = 0" by code_simp
  show ?thesis
    using is_valid_iff_candidate [OF wf _ _ z, of ] wf z by simp
qed

section \<open>Reset\<close>

text \<open>
  C8. After \<open>reset_board\<close> the grid is the initial puzzle, cell for cell, and when the
  initial puzzle has an empty cell \<open>is_complete\<close> is false after the reset.
\<close>

theorem reset_law:
  "board (reset_board s) = initial_board s \<and>
   ((\<exists>r<9. \<exists>c<9. initial_board s ! r ! c = 0) \<longrightarrow> \<not> is_complete (reset_board s))"
  by (force simp: reset_board_def is_complete_def list_ex_iff)

theorem reset_law_witness:
  "(\<exists>r<9. \<exists>c<9. initial_board demo_user_moved ! r ! c = 0)
   \<and> board (reset_board demo_user_moved) = initial_board demo_user_moved
   \<and> \<not> is_complete (reset_board demo_user_moved)"
proof -
  have "initial_board demo_user_moved ! 0 ! 0 = 0" by code_simp
  then have h: "\<exists>r<9. \<exists>c<9. initial_board demo_user_moved ! r ! c = 0"
    by (intro exI[of _ 0] conjI) simp_all
  then show ?thesis using reset_law[of demo_user_moved] by blast
qed


section \<open>Input that is not a digit from one to nine\<close>

text \<open>
  C5, as stated, fails. \<open>demo_played\<close> is the session after these steps: the fresh
  session of \<open>demo_rand\<close>, the user enters 9 at (0, 0), and the automated mover replies
  with 4 at (4, 0). It is the user's turn again, the cell (0, 0) is not part of the
  initial puzzle and it holds the user's own 9. Typing 90 into that cell runs the
  \<open>except ValueError\<close> branch, which stores 0 in the cell: the grid is not left
  unchanged.
\<close>

theorem out_of_range_unchanged_counterexample:
  "current_turn demo_played = User
   \<and> initial_board demo_played ! 0 ! 0 = 0
   \<and> cell_colors demo_played ! 0 ! 0 = Some ByUser
   \<and> board demo_played ! 0 ! 0 = 9
   \<and> fst (on_cell_edit sorted_list_of_set 0 0 (Num 90) demo_played) = BadInput
   \<and> board (snd (on_cell_edit sorted_list_of_set 0 0 (Num 90) demo_played)) ! 0 ! 0 = 0"
proof -
  have e: "on_cell_edit sorted_list_of_set 0 0 (Num 90) demo_played
         = (BadInput, demo_played\<lparr>board := set_cell (board demo_played) 0 0 0\<rparr>)"
    by (rule on_cell_edit_bad[OF demo_played_fields(3) demo_played_cells(3)]) simp
  show ?thesis
    unfolding e using demo_played_fields(3) demo_played_cells by simp
qed

text \<open>
  C5, amended. Input that is not a digit from one to nine never writes a digit. When it
  is the user's turn and the cell is not locked, the move is rejected as bad input and
  the session that results is the old one with 0 stored in the target cell: every other
  cell, the colours, the frontier, the initial puzzle and the turn are as before, so the
  session is unchanged exactly when the target cell was empty already. When it is not
  the user's turn or the cell is locked, the session is left as it was.
\<close>

theorem out_of_range_clears_target:
  assumes "wf_board (board s)" and "r < 9" and "c < 9"
    and "text = NotInt \<or> (\<exists>n. text = Num n \<and> (n < 1 \<or> 9 < n))"
  shows "on_cell_edit iter r c text s =
           (if current_turn s = User \<and> initial_board s ! r ! c = 0
            then (BadInput, s\<lparr>board := set_cell (board s) r c 0\<rparr>)
            else (Ignored, s))
       \<and> (\<exists>out s'. on_cell_edit iter r c text s = (out, s') \<and>
           (if current_turn s = User \<and> initial_board s ! r ! c = 0
            then out = BadInput \<and> board s' ! r ! c = 0
            else out = Ignored \<and> s' = s) \<and>
           (\<forall>i<9. \<forall>j<9. (i, j) \<noteq> (r, c) \<longrightarrow> board s' ! i ! j = board s ! i ! j) \<and>
           (board s ! r ! c = 0 \<longrightarrow> s' = s) \<and>
           initial_board s' = initial_board s \<and> current_turn s' = current_turn s \<and>
           cell_colors s' = cell_colors s \<and> pq s' = pq s)"
proof (cases "current_turn s = User \<and> initial_board s ! r ! c = 0")
  case True
  then have e: "on_cell_edit iter r c text s = (BadInput, s\<lparr>board := set_cell (board s) r c 0\<rparr>)"
    using assms(4) by (intro on_cell_edit_bad) simp_all
  have "board s ! r ! c = 0 \<Longrightarrow> s\<lparr>board := set_cell (board s) r c 0\<rparr> = s"
    using set_cell_same[OF assms(1-3)] by (cases s) simp
  then show ?thesis
    unfolding e using True assms(1-3) by (simp add: nth_set_cell)
next
  case False
  then have e: "on_cell_edit iter r c text s = (Ignored, s)"
    by (intro on_cell_edit_ignored) auto
  show ?thesis unfolding e using False by auto
qed

theorem out_of_range_clears_target_witness:
  "wf_board (board demo_played)
   \<and> on_cell_edit sorted_list_of_set 0 0 NotInt demo_played
       = (BadInput, demo_played\<lparr>board := set_cell (board demo_played) 0 0 0\<rparr>)
   \<and> board demo_played ! 0 ! 0 = 9
   \<and> board (snd (on_cell_edit sorted_list_of_set 0 0 NotInt demo_played)) ! 0 ! 0 = 0
   \<and> board (snd (on_cell_edit sorted_list_of_set 0 0 NotInt demo_played)) ! 4 ! 0 = 4
   \<and> cell_colors (snd (on_cell_edit sorted_list_of_set 0 0 NotInt demo_played))
       = cell_colors demo_played
   \<and> on_cell_edit sorted_list_of_set 0 0 NotInt demo_user_moved = (Ignored, demo_user_moved)"
proof -
  have wf2: "wf_board (board demo_user_moved)" by code_simp
  have t2: "current_turn demo_user_moved \<noteq> User" by (simp add: demo_user_moved_def)
  show ?thesis
    using out_of_range_clears_target[OF demo_played_cells(1), of 0 0 NotInt sorted_list_of_set]
      out_of_range_clears_target[OF wf2, of 0 0 NotInt sorted_list_of_set]
      demo_played_fields(3) demo_played_cells t2
    by simp
qed


section \<open>Reset and the frontier\<close>

text \<open>
  C10. \<open>reset_board\<close> restores the grid, the turn and the cell colours and leaves
  \<open>pq\<close> as it is. A later \<open>ai_make_move\<close> that places a digit therefore acts on an
  entry that was pushed before the reset. In the session \<open>demo_user_moved\<close> (the user
  has entered 9 at (0, 0)) the queue holds \<open>(0, 0, 0, {})\<close>, the snapshot of the cell
  taken while it was filled; after the reset the cell is empty again, its live
  candidates are 3, 4, 6, 7 and 9, and the automated mover takes that entry and fills
  the cell.
\<close>

theorem reset_keeps_frontier:
  "pq (reset_board s) = pq s \<and> board (reset_board s) = initial_board s \<and>
   initial_board (reset_board s) = initial_board s \<and> current_turn (reset_board s) = User \<and>
   cell_colors (reset_board s) = no_colors \<and>
   (fst (ai_make_move iter choice (reset_board s)) \<longrightarrow>
      (\<exists>n r c cs. (n, r, c, cs) \<in> set (pq s) \<and> initial_board s ! r ! c = 0 \<and>
         board (snd (ai_make_move iter choice (reset_board s)))
           = set_cell (initial_board s) r c (choice (get_candidates (initial_board s) r c)))) \<and>
   ((0, 0, 0, {}) \<in> set (pq (reset_board demo_user_moved)) \<and>
    get_candidates (board (reset_board demo_user_moved)) 0 0 = {3, 4, 6, 7, 9} \<and>
    fst (ai_make_move iter choice (reset_board demo_user_moved)) \<and>
    board (snd (ai_make_move iter choice (reset_board demo_user_moved)))
      = set_cell demo_start 0 0 (choice {3, 4, 6, 7, 9}))"
proof -
  have frame: "pq (reset_board s) = pq s" "board (reset_board s) = initial_board s"
    "initial_board (reset_board s) = initial_board s" "current_turn (reset_board s) = User"
    "cell_colors (reset_board s) = no_colors"
    by (simp_all add: reset_board_def)
  obtain ok s' where r: "ai_make_move iter choice (reset_board s) = (ok, s')"
    by (cases "ai_make_move iter choice (reset_board s)")
  have act: "fst (ai_make_move iter choice (reset_board s)) \<longrightarrow>
      (\<exists>n r c cs. (n, r, c, cs) \<in> set (pq s) \<and> initial_board s ! r ! c = 0 \<and>
         board (snd (ai_make_move iter choice (reset_board s)))
           = set_cell (initial_board s) r c (choice (get_candidates (initial_board s) r c)))"
    using ai_make_move_result[OF r] unfolding r frame by (cases ok) auto
  have mem: "(0, 0, 0, {}) \<in> set (pq (reset_board demo_user_moved))"
    using set_heappop[OF demo_reset_pop] by simp
  have demo: "fst (ai_make_move iter choice (reset_board demo_user_moved))"
    "board (snd (ai_make_move iter choice (reset_board demo_user_moved)))
      = set_cell demo_start 0 0 (choice {3, 4, 6, 7, 9})"
    unfolding demo_reset_ai_move by simp_all
  show ?thesis
    using frame act mem demo by (simp add: demo_reset_board demo_start_candidates)
qed

theorem reset_keeps_frontier_witness:
  "fst (ai_make_move sorted_list_of_set Min (reset_board demo_user_moved))
   \<and> pq (reset_board demo_user_moved) = pq demo_user_moved
   \<and> (\<exists>n r c cs. (n, r, c, cs) \<in> set (pq demo_user_moved)
         \<and> initial_board demo_user_moved ! r ! c = 0
         \<and> board (snd (ai_make_move sorted_list_of_set Min (reset_board demo_user_moved)))
             = set_cell (initial_board demo_user_moved) r c
                 (Min (get_candidates (initial_board demo_user_moved) r c)))"
proof -
  have "fst (ai_make_move sorted_list_of_set Min (reset_board demo_user_moved))"
    unfolding demo_reset_ai_move by simp
  then show ?thesis
    using reset_keeps_frontier[of demo_user_moved sorted_list_of_set Min] by blast
qed

section \<open>Stale frontier entries\<close>

text \<open>
  C7. The extraction loops of \<open>ai_make_move\<close> and \<open>show_hint\<close> discard stale
  entries and nothing else: the frontier splits into the entries that \<open>drop_stale\<close>
  removes, every one of them stale, and the frontier that is left. When nothing is left,
  \<open>ai_make_move\<close> returns \<open>False\<close> and \<open>show_hint\<close> returns no hint, both with the
  frontier emptied. Otherwise the head of what is left is an entry of the frontier whose
  cell is empty; \<open>ai_make_move\<close> pops it and acts on that cell and on no other, and
  \<open>show_hint\<close> reports that cell with its current candidates. So \<open>ai_make_move\<close> gives
  up only when every entry is stale or the selected empty cell has no candidate, and
  \<open>show_hint\<close> gives no hint exactly when every entry is stale. A placed digit goes to a
  cell that was empty, no filled cell changes, and \<open>show_hint\<close> leaves the grid as it is.
\<close>

theorem stale_entries_discarded:
  assumes "session_ok s"
  shows "(\<exists>dropped. mset (pq s) = mset dropped + mset (drop_stale (board s) (pq s))
            \<and> (\<forall>e\<in>set dropped. stale (board s) e))
     \<and> (case drop_stale (board s) (pq s) of
           [] \<Rightarrow> ai_make_move iter choice s = (False, s\<lparr>pq := []\<rparr>)
                   \<and> show_hint s = (None, s\<lparr>pq := []\<rparr>)
         | e # es \<Rightarrow> e \<in> set (pq s) \<and> \<not> stale (board s) e \<and>
             (case e of (n, r, c, cs) \<Rightarrow> r < 9 \<and> c < 9 \<and>
                (\<exists>rest. heappop (e # es) = Some (e, rest) \<and>
                   ai_make_move iter choice s =
                     (if get_candidates (board s) r c = {} then (False, s\<lparr>pq := rest\<rparr>)
                      else (True, update_neighbors iter r c
                              (s\<lparr>pq := rest,
                                 board := set_cell (board s) r c (choice (get_candidates (board s) r c)),
                                 cell_colors := set_color (cell_colors s) r c (Some ByAI)\<rparr>)))) \<and>
                show_hint s = (Some (r, c, get_candidates (board s) r c), s\<lparr>pq := e # es\<rparr>)))
     \<and> (\<not> fst (ai_make_move iter choice s) \<longrightarrow>
            (\<forall>e\<in>set (pq s). stale (board s) e) \<or>
            (\<exists>e\<in>set (pq s). case e of (n, r, c, cs) \<Rightarrow>
                board s ! r ! c = 0 \<and> get_candidates (board s) r c = {}))
     \<and> (fst (show_hint s) = None \<longleftrightarrow> (\<forall>e\<in>set (pq s). stale (board s) e))
     \<and> (case ai_make_move iter choice s of
            (ok, s') \<Rightarrow>
              (if ok
               then \<exists>n r c cs. (n, r, c, cs) \<in> set (pq s) \<and> r < 9 \<and> c < 9 \<and>
                      board s ! r ! c = 0 \<and>
                      board s' = set_cell (board s) r c (choice (get_candidates (board s) r c))
               else board s' = board s) \<and>
              (\<forall>i<9. \<forall>j<9. board s ! i ! j \<noteq> 0 \<longrightarrow> board s' ! i ! j = board s ! i ! j)) \<and>
         (case show_hint s of
            (None, s') \<Rightarrow> board s' = board s
          | (Some (r, c, cs), s') \<Rightarrow>
              board s' = board s \<and> r < 9 \<and> c < 9 \<and> board s ! r ! c = 0 \<and>
              cs = get_candidates (board s) r c \<and> (\<exists>n cs'. (n, r, c, cs') \<in> set (pq s)))"
proof -
  have 1: "\<exists>dropped. mset (pq s) = mset dropped + mset (drop_stale (board s) (pq s))
            \<and> (\<forall>e\<in>set dropped. stale (board s) e)"
    using drop_stale_mset[of "pq s" "board s"] by (simp add: stale_def)
  show ?thesis
    by (intro conjI 1 drop_stale_cases[OF assms]
        give_up_only_when_justified[OF assms, THEN conjunct1]
        give_up_only_when_justified[OF assms, THEN conjunct2]
        selected_cell_was_empty[OF assms, THEN conjunct1]
        selected_cell_was_empty[OF assms, THEN conjunct2])
qed

theorem stale_entries_discarded_witness:
  "session_ok demo_user_moved
   \<and> pq demo_user_moved ! 0 = (0, 0, 0, {}) \<and> board demo_user_moved ! 0 ! 0 = 9
   \<and> stale (board demo_user_moved) (0, 0, 0, {})
   \<and> drop_stale (board demo_user_moved) (pq demo_user_moved) = demo_live_queue
   \<and> ai_make_move sorted_list_of_set Min demo_user_moved
       = (True, update_neighbors sorted_list_of_set 4 0
            (demo_user_moved\<lparr>pq := demo_rest_queue,
               board := set_cell (board demo_user_moved) 4 0 4,
               cell_colors := set_color (cell_colors demo_user_moved) 4 0 (Some ByAI)\<rparr>))
   \<and> show_hint demo_user_moved = (Some (4, 0, {4, 6}), demo_user_moved\<lparr>pq := demo_live_queue\<rparr>)"
proof -
  have ok: "session_ok demo_user_moved" by code_simp
  have h: "pq demo_user_moved ! 0 = (0, 0, 0, {})" "board demo_user_moved ! 0 ! 0 = 9"
    by code_simp+
  have st: "stale (board demo_user_moved) (0, 0, 0, {})" using h(2) by (simp add: stale_def)
  obtain es where q: "demo_live_queue = (2, 4, 0, {4, 6}) # es"
    by (simp add: demo_live_queue_def)
  have m: "Min {4, 6 :: int} = 4" by simp
  note t = stale_entries_discarded[OF ok, where iter = sorted_list_of_set and choice = Min,
      THEN conjunct2, THEN conjunct1, unfolded demo_drop_stale q list.case prod.case]
  note p = demo_live_pop[unfolded q]
  have "ai_make_move sorted_list_of_set Min demo_user_moved
       = (True, update_neighbors sorted_list_of_set 4 0
            (demo_user_moved\<lparr>pq := demo_rest_queue,
               board := set_cell (board demo_user_moved) 4 0 4,
               cell_colors := set_color (cell_colors demo_user_moved) 4 0 (Some ByAI)\<rparr>))
      \<and> show_hint demo_user_moved = (Some (4, 0, {4, 6}), demo_user_moved\<lparr>pq := demo_live_queue\<rparr>)"
    using t p by (auto simp: demo_moved_candidates m q)
  then show ?thesis using ok h st demo_drop_stale by simp
qed


section \<open>Refreshing the neighbours\<close>

text \<open>
  C4, as stated, fails. \<open>update_neighbors\<close> has no test before \<open>heappush\<close>: it pushes
  an entry for every cell of the set, and the set holds the cell \<open>(row, col)\<close> itself,
  which makes 21 cells. In \<open>demo_before_refresh\<close> the cells (0, 0) and (5, 0) are
  filled, and both get an entry with count 0 and the empty candidate set.
\<close>

theorem refresh_only_live_counterexample:
  "card (neighbours 0 0) = 21
   \<and> (0, 0) \<in> neighbours 0 0 \<and> board demo_before_refresh ! 0 ! 0 = 9
   \<and> (0, 0, 0, {}) \<in> set (pq (update_neighbors sorted_list_of_set 0 0 demo_before_refresh))
   \<and> (5, 0) \<in> neighbours 0 0 \<and> board demo_before_refresh ! 5 ! 0 = 1
   \<and> (0, 5, 0, {}) \<in> set (pq (update_neighbors sorted_list_of_set 0 0 demo_before_refresh))"
proof -
  have d: "distinct (sorted_list_of_set (neighbours 0 0))"
    and e: "set (sorted_list_of_set (neighbours 0 0)) = neighbours 0 0"
    using sorted_neighbours[of 0 0] by simp_all
  have n: "(0, 0) \<in> neighbours 0 0" "(5, 0) \<in> neighbours 0 0" by (simp_all add: neighbours_conv)
  have f: "fresh_entry (board demo_before_refresh) (0, 0) = (0, 0, 0, {})"
    "fresh_entry (board demo_before_refresh) (5, 0) = (0, 5, 0, {})"
    by code_simp+
  have b: "board demo_before_refresh ! 0 ! 0 = 9" "board demo_before_refresh ! 5 ! 0 = 1"
    by code_simp+
  have fin: "finite (neighbours 0 0)" by (simp add: finite_neighbours)
  have "fresh_entry (board demo_before_refresh) (0, 0)
          \<in># mset (pq (update_neighbors sorted_list_of_set 0 0 demo_before_refresh))"
       "fresh_entry (board demo_before_refresh) (5, 0)
          \<in># mset (pq (update_neighbors sorted_list_of_set 0 0 demo_before_refresh))"
    unfolding mset_pq_update_neighbors[where iter = sorted_list_of_set and r = 0 and c = 0, OF d e]
    using n fin by simp_all
  then show ?thesis
    using n b card_neighbours[of 0 0] unfolding f by simp
qed

text \<open>
  C4, amended. For a cell \<open>(r, c)\<close> of the board, \<open>update_neighbors\<close> recomputes the
  candidates of exactly the 21 cells that share the row, the column or the box of
  \<open>(r, c)\<close>, the cell itself included, and pushes one fresh entry
  \<open>(len(candidates), i, j, candidates)\<close> for each of them, whatever the candidate set is;
  nothing else is added to the queue and the grid is not touched.
\<close>

theorem update_neighbors_pushes_all:
  assumes "r < 9" and "c < 9"
    and "distinct (iter (neighbours r c))" and "set (iter (neighbours r c)) = neighbours r c"
  shows "neighbours r c =
           {(i, j). i < 9 \<and> j < 9 \<and> (i = r \<or> j = c \<or> (i div 3 = r div 3 \<and> j div 3 = c div 3))}
       \<and> card (neighbours r c) = 21
       \<and> mset (pq (update_neighbors iter r c s))
           = mset (pq s) + image_mset (fresh_entry (board s)) (mset_set (neighbours r c))
       \<and> length (pq (update_neighbors iter r c s)) = length (pq s) + 21
       \<and> board (update_neighbors iter r c s) = board s
       \<and> (\<forall>i j. (i, j) \<in> neighbours r c \<longrightarrow>
             (card (get_candidates (board s) i j), i, j, get_candidates (board s) i j)
               \<in> set (pq (update_neighbors iter r c s)))"
proof -
  have m: "mset (pq (update_neighbors iter r c s))
           = mset (pq s) + image_mset (fresh_entry (board s)) (mset_set (neighbours r c))"
    by (rule mset_pq_update_neighbors[where iter = iter and r = r and c = c, OF assms(3,4)])
  have "size (mset (pq (update_neighbors iter r c s))) = size (mset (pq s)) + card (neighbours r c)"
    unfolding m by simp
  then have l: "length (pq (update_neighbors iter r c s)) = length (pq s) + 21"
    by (simp add: card_neighbours[OF assms(1,2)])
  have e: "(card (get_candidates (board s) i j), i, j, get_candidates (board s) i j)
               \<in> set (pq (update_neighbors iter r c s))" if "(i, j) \<in> neighbours r c" for i j
  proof -
    have "fresh_entry (board s) (i, j) \<in># mset (pq (update_neighbors iter r c s))"
      unfolding m using that finite_neighbours[OF assms(1,2)] by simp
    then show ?thesis by (simp add: fresh_entry_def Let_def)
  qed
  show ?thesis
    using neighbours_in_range[OF assms(1,2)] card_neighbours[OF assms(1,2)] m l e by simp
qed


theorem update_neighbors_pushes_all_witness:
  "card (neighbours 0 0) = 21
   \<and> length (pq (update_neighbors sorted_list_of_set 0 0 demo_before_refresh)) = 21
   \<and> (3, 3, 0, {4, 6, 7}) \<in> set (pq (update_neighbors sorted_list_of_set 0 0 demo_before_refresh))"
proof -
  have d: "distinct (sorted_list_of_set (neighbours 0 0))"
    and e: "set (sorted_list_of_set (neighbours 0 0)) = neighbours 0 0"
    using sorted_neighbours[of 0 0] by simp_all
  have z: "(0::nat) < 9" by simp
  have n: "(3, 0) \<in> neighbours 0 0" by (simp add: neighbours_conv)
  have c: "get_candidates (board demo_before_refresh) 3 0 = {4, 6, 7}" by code_simp
  have k: "card {4, 6, 7 :: int} = 3" by simp
  have p: "pq demo_before_refresh = []" by (simp add: demo_before_refresh_def demo_fresh_def)
  note t = update_neighbors_pushes_all[where iter = sorted_list_of_set and r = 0 and c = 0
        and s = demo_before_refresh, OF z z d e]
  have c21: "card (neighbours 0 0) = 21" using t by blast
  have len: "length (pq (update_neighbors sorted_list_of_set 0 0 demo_before_refresh))
      = length (pq demo_before_refresh) + 21"
    using t by blast
  have mem: "(card (get_candidates (board demo_before_refresh) 3 0), 3, 0,
              get_candidates (board demo_before_refresh) 3 0)
      \<in> set (pq (update_neighbors sorted_list_of_set 0 0 demo_before_refresh))"
    using t n by blast
  show ?thesis using c21 len mem by (simp add: p c k)
qed


section \<open>Moves keep the grid valid\<close>

text \<open>
  C3. In a session whose grid is well formed and satisfies the validity invariant, every
  call of \<open>on_cell_edit\<close> on a cell of the grid, whatever its outcome, and every call of
  \<open>ai_make_move\<close> or \<open>ai_turn\<close> leaves a grid that satisfies the invariant. When the
  human move is accepted, the grid is the old one with the entered digit, one of 1 to 9,
  in the target cell, and no other cell of its row, column or box holds that digit.
  When the automated move places a digit, it is one of 1 to 9, it goes to an empty cell
  of a frontier entry, and no other cell of that cell's row, column or box holds it.
  \<open>random.choice\<close> is any function that picks a member of a finite non-empty set.
\<close>

theorem moves_keep_grid_valid:
  assumes "session_ok s" and "valid_board (board s)" and "r < 9" and "c < 9"
    and "\<forall>S. finite S \<longrightarrow> S \<noteq> {} \<longrightarrow> choice S \<in> S"
  shows "(case on_cell_edit iter r c entered s of
            (out, s') \<Rightarrow>
              valid_board (board s') \<and>
              (out = Accepted \<or> out = Completed \<longrightarrow>
                 (\<exists>n. entered = Num n \<and> 1 \<le> n \<and> n \<le> 9 \<and> board s' = set_cell (board s) r c n \<and>
                    (\<forall>i<9. \<forall>j<9. (i = r \<or> j = c \<or> (i div 3 = r div 3 \<and> j div 3 = c div 3)) \<longrightarrow>
                        (i, j) \<noteq> (r, c) \<longrightarrow> board s' ! i ! j \<noteq> n))))
       \<and> (case ai_make_move iter choice s of
            (ok, s') \<Rightarrow>
              valid_board (board s') \<and>
              (ok \<longrightarrow>
                 (\<exists>n r c cs v. (n, r, c, cs) \<in> set (pq s) \<and> r < 9 \<and> c < 9 \<and> board s ! r ! c = 0 \<and>
                    1 \<le> v \<and> v \<le> 9 \<and> board s' = set_cell (board s) r c v \<and>
                    (\<forall>i<9. \<forall>j<9. (i = r \<or> j = c \<or> (i div 3 = r div 3 \<and> j div 3 = c div 3)) \<longrightarrow>
                        (i, j) \<noteq> (r, c) \<longrightarrow> board s' ! i ! j \<noteq> v))))
       \<and> valid_board (board (ai_turn iter choice s))"
proof -
  have wf: "wf_board (board s)" using assms(1) by (simp add: session_ok_def)
  note v = assms(2)
  have wf0: "wf_board (set_cell (board s) r c 0)" using wf by simp
  have v0: "valid_board (set_cell (board s) r c 0)" by (rule valid_clear[OF wf assms(3,4) v])
  have user: "case on_cell_edit iter r c entered s of
            (out, s') \<Rightarrow>
              valid_board (board s') \<and>
              (out = Accepted \<or> out = Completed \<longrightarrow>
                 (\<exists>n. entered = Num n \<and> 1 \<le> n \<and> n \<le> 9 \<and> board s' = set_cell (board s) r c n \<and>
                    (\<forall>i<9. \<forall>j<9. (i = r \<or> j = c \<or> (i div 3 = r div 3 \<and> j div 3 = c div 3)) \<longrightarrow>
                        (i, j) \<noteq> (r, c) \<longrightarrow> board s' ! i ! j \<noteq> n)))"
    using on_cell_edit_cases[OF wf assms(3,4), of iter entered]
  proof
    assume "\<exists>out s'. on_cell_edit iter r c entered s = (out, s') \<and> out \<noteq> Accepted \<and> out \<noteq> Completed
             \<and> (board s' = board s \<or> board s' = set_cell (board s) r c 0)"
    then obtain out s' where e: "on_cell_edit iter r c entered s = (out, s')"
      and o: "out \<noteq> Accepted" "out \<noteq> Completed"
      and b: "board s' = board s \<or> board s' = set_cell (board s) r c 0"
      by blast
    have "valid_board (board s')" using b v v0 by auto
    then show ?thesis unfolding e prod.case using o by simp
  next
    assume "\<exists>out s' n. on_cell_edit iter r c entered s = (out, s') \<and> (out = Accepted \<or> out = Completed)
             \<and> entered = Num n \<and> 1 \<le> n \<and> n \<le> 9 \<and> current_turn s = User
             \<and> initial_board s ! r ! c = 0
             \<and> is_valid (set_cell (board s) r c 0) r c n
             \<and> board s' = set_cell (board s) r c n"
    then obtain out s' n where e: "on_cell_edit iter r c entered s = (out, s')"
      and t: "entered = Num n" and n: "1 \<le> n" "n \<le> 9"
      and iv: "is_valid (set_cell (board s) r c 0) r c n"
      and b: "board s' = set_cell (board s) r c n"
      by blast
    have b': "board s' = set_cell (set_cell (board s) r c 0) r c n" using b by simp
    have vb: "valid_board (board s')"
      unfolding b' by (rule valid_place[OF wf0 assms(3,4) v0 iv])
    have pd: "\<forall>i<9. \<forall>j<9. (i = r \<or> j = c \<or> (i div 3 = r div 3 \<and> j div 3 = c div 3)) \<longrightarrow>
                        (i, j) \<noteq> (r, c) \<longrightarrow> board s' ! i ! j \<noteq> n"
      unfolding b' by (rule peers_differ[OF wf0 v0 assms(3,4) iv])
    have "\<exists>n. entered = Num n \<and> 1 \<le> n \<and> n \<le> 9 \<and> board s' = set_cell (board s) r c n \<and>
                    (\<forall>i<9. \<forall>j<9. (i = r \<or> j = c \<or> (i div 3 = r div 3 \<and> j div 3 = c div 3)) \<longrightarrow>
                        (i, j) \<noteq> (r, c) \<longrightarrow> board s' ! i ! j \<noteq> n)"
      by (rule exI[of _ n]) (intro conjI t n b pd)
    then show ?thesis unfolding e prod.case using vb by (intro conjI impI)
  qed
  obtain ok s' where r: "ai_make_move iter choice s = (ok, s')"
    by (cases "ai_make_move iter choice s")
  have ai: "valid_board (board s') \<and>
              (ok \<longrightarrow>
                 (\<exists>n r c cs v. (n, r, c, cs) \<in> set (pq s) \<and> r < 9 \<and> c < 9 \<and> board s ! r ! c = 0 \<and>
                    1 \<le> v \<and> v \<le> 9 \<and> board s' = set_cell (board s) r c v \<and>
                    (\<forall>i<9. \<forall>j<9. (i = r \<or> j = c \<or> (i div 3 = r div 3 \<and> j div 3 = c div 3)) \<longrightarrow>
                        (i, j) \<noteq> (r, c) \<longrightarrow> board s' ! i ! j \<noteq> v)))"
  proof (cases ok)
    case False
    then show ?thesis using ai_make_move_result[OF r] v by simp
  next
    case True
    then have "\<exists>n r c cs. (n, r, c, cs) \<in> set (pq s) \<and> board s ! r ! c = 0
              \<and> get_candidates (board s) r c \<noteq> {}
              \<and> board s' = set_cell (board s) r c (choice (get_candidates (board s) r c))"
      using ai_make_move_result[OF r] by simp
    then obtain n r' c' cs where w: "(n, r', c', cs) \<in> set (pq s)" "board s ! r' ! c' = 0"
      "get_candidates (board s) r' c' \<noteq> {}"
      "board s' = set_cell (board s) r' c' (choice (get_candidates (board s) r' c'))"
      by blast
    define d where "d = choice (get_candidates (board s) r' c')"
    have rc: "r' < 9" "c' < 9" using session_ok_entry[OF assms(1) w(1)] by simp_all
    have "d \<in> get_candidates (board s) r' c'"
      unfolding d_def by (rule assms(5)[rule_format, OF finite_candidates w(3)])
    then have iv: "is_valid (board s) r' c' d" and d: "1 \<le> d" "d \<le> 9"
      using candidate_is_valid[OF wf rc] by simp_all
    have b: "board s' = set_cell (board s) r' c' d" using w(4) by (simp add: d_def)
    have vb: "valid_board (board s')" unfolding b by (rule valid_place[OF wf rc v iv])
    have pd: "\<forall>i<9. \<forall>j<9. (i = r' \<or> j = c' \<or> (i div 3 = r' div 3 \<and> j div 3 = c' div 3)) \<longrightarrow>
                        (i, j) \<noteq> (r', c') \<longrightarrow> board s' ! i ! j \<noteq> d"
      unfolding b by (rule peers_differ[OF wf v rc iv])
    have "\<exists>n r c cs v. (n, r, c, cs) \<in> set (pq s) \<and> r < 9 \<and> c < 9 \<and> board s ! r ! c = 0 \<and>
                    1 \<le> v \<and> v \<le> 9 \<and> board s' = set_cell (board s) r c v \<and>
                    (\<forall>i<9. \<forall>j<9. (i = r \<or> j = c \<or> (i div 3 = r div 3 \<and> j div 3 = c div 3)) \<longrightarrow>
                        (i, j) \<noteq> (r, c) \<longrightarrow> board s' ! i ! j \<noteq> v)"
      by (intro exI[of _ n] exI[of _ r'] exI[of _ c'] exI[of _ cs] exI[of _ d] conjI w(1,2) rc d b pd)
    then show ?thesis using vb by (intro conjI impI)
  qed
  have vt: "valid_board (board (ai_turn iter choice s))"
    unfolding board_ai_turn r using ai by simp
  show ?thesis unfolding r prod.case by (rule conjI[OF user conjI[OF ai vt]])
qed

theorem moves_keep_grid_valid_witness:
  "session_ok demo_fresh \<and> valid_board (board demo_fresh)
   \<and> on_cell_edit sorted_list_of_set 0 0 (Num 9) demo_fresh = (Accepted, demo_user_moved)
   \<and> valid_board (board demo_user_moved) \<and> board demo_user_moved ! 0 ! 0 = 9
   \<and> session_ok demo_user_moved
   \<and> fst (ai_make_move sorted_list_of_set Min demo_user_moved)
   \<and> valid_board (board (snd (ai_make_move sorted_list_of_set Min demo_user_moved)))
   \<and> board (snd (ai_make_move sorted_list_of_set Min demo_user_moved)) ! 4 ! 0 = 4
   \<and> valid_board (board (ai_turn sorted_list_of_set Min demo_user_moved))"
proof -
  have ok1: "session_ok demo_fresh" and v1: "valid_board (board demo_fresh)" by code_simp+
  have ok2: "session_ok demo_user_moved" by code_simp
  have ch: "\<forall>S::int set. finite S \<longrightarrow> S \<noteq> {} \<longrightarrow> Min S \<in> S" by simp
  have n: "(0::nat) < 9" by simp
  note u = moves_keep_grid_valid[OF ok1 v1 n n ch, where iter = sorted_list_of_set
      and entered = "Num 9", THEN conjunct1, unfolded demo_user_moved_reached prod.case]
  have v2: "valid_board (board demo_user_moved)" by (rule u[THEN conjunct1])
  note a = moves_keep_grid_valid[OF ok2 v2 n n ch, where iter = sorted_list_of_set
      and entered = "Num 9", THEN conjunct2]
  have b: "board (snd (ai_make_move sorted_list_of_set Min demo_user_moved)) ! 4 ! 0 = 4"
    unfolding demo_ai_move by (simp add: demo_user_moved_def) code_simp
  have "valid_board (board (snd (ai_make_move sorted_list_of_set Min demo_user_moved)))"
    using a by (simp add: case_prod_beta)
  moreover have "valid_board (board (ai_turn sorted_list_of_set Min demo_user_moved))"
    using a by simp
  moreover have "board demo_user_moved ! 0 ! 0 = 9" by code_simp
  moreover have "fst (ai_make_move sorted_list_of_set Min demo_user_moved)"
    unfolding demo_ai_move by simp
  ultimately show ?thesis using ok1 v1 ok2 v2 b demo_user_moved_reached by simp
qed

end
